theory Spec2Isabelle
  imports Complex_Main "HOL-Library.Log_Nat"
begin

section \<open>generation.js: the similarity correlator\<close>

text \<open>
  Addresses are base58 text, modelled as \<open>string\<close>. The pool \<open>generatedKeypairs\<close> is a
  JavaScript \<open>Map\<close> from public key to keypair data, iterated in insertion order: an
  association list. The match set \<open>similarAddresses\<close> is a JavaScript \<open>Set\<close> of objects;
  every object built by the correlator is a fresh reference, so \<open>add\<close> always appends:
  a list of records in insertion order. Balances are numbers of SOL, modelled as exact
  rationals. Writes to the JSON files (\<open>appendToFile\<close>, \<open>saveSimilarAddresses\<close>) go to
  external storage and are not part of the in-memory state modelled here.
\<close>

record keypairData =
  kd_publicKey :: string
  secretKey :: string

record similarAddress =
  activeAddress :: string
  generatedPublicKey :: string
  generatedSecretKey :: string
  activeBalance :: rat
  frontMatches :: nat
  endMatches :: nat
  lastActivity :: string

definition MIN_FRONT_SIMILARITY :: nat where
  "MIN_FRONT_SIMILARITY = 4"

text \<open>\<open>s.slice(0, n)\<close> and \<open>s.slice(-n)\<close> on a string.\<close>

definition slice_front :: "nat \<Rightarrow> string \<Rightarrow> string" where
  "slice_front n s = take n s"

definition slice_back :: "nat \<Rightarrow> string \<Rightarrow> string" where
  "slice_back n s = drop (length s - n) s"

text \<open>
  \<open>xs.filter((char, index) => char === ys[index]).length\<close>: positions where both
  strings have the same character; past the end of \<open>ys\<close> the read is \<open>undefined\<close>
  and never equal.
\<close>

definition positional_matches :: "string \<Rightarrow> string \<Rightarrow> nat" where
  "positional_matches xs ys = length (filter (\<lambda>(c, d). c = d) (zip xs ys))"

text \<open>\<open>countEndMatches(lastSix, activeLastSix)\<close> walks its second argument.\<close>

definition countEndMatches :: "string \<Rightarrow> string \<Rightarrow> nat" where
  "countEndMatches lastSix activeLastSix = positional_matches activeLastSix lastSix"

text \<open>The acceptance test of line 90.\<close>

definition front_accepted :: "string \<Rightarrow> string \<Rightarrow> bool" where
  "front_accepted activePublicKey generatedKey =
     (slice_front MIN_FRONT_SIMILARITY (slice_front 6 activePublicKey)
        = slice_front MIN_FRONT_SIMILARITY (slice_front 6 generatedKey))"

text \<open>The record built at lines 91-99.\<close>

definition make_similar ::
  "string \<Rightarrow> rat \<Rightarrow> string \<Rightarrow> string \<times> keypairData \<Rightarrow> similarAddress" where
  "make_similar activePublicKey bal act entry =
     \<lparr> activeAddress = activePublicKey,
       generatedPublicKey = fst entry,
       generatedSecretKey = secretKey (snd entry),
       activeBalance = bal,
       frontMatches = positional_matches (slice_front 6 activePublicKey) (slice_front 6 (fst entry)),
       endMatches = countEndMatches (slice_back 6 activePublicKey) (slice_back 6 (fst entry)),
       lastActivity = act \<rparr>"

text \<open>The duplicate test of line 100.\<close>

definition has_pair :: "similarAddress list \<Rightarrow> string \<Rightarrow> string \<Rightarrow> bool" where
  "has_pair similarAddresses a g =
     list_ex (\<lambda>addr. activeAddress addr = a \<and> generatedPublicKey addr = g) similarAddresses"

text \<open>One iteration of the loop over the pool (lines 84-105).\<close>

definition correlate_entry ::
  "string \<Rightarrow> rat \<Rightarrow> string \<Rightarrow> similarAddress list \<Rightarrow> string \<times> keypairData \<Rightarrow> similarAddress list" where
  "correlate_entry activePublicKey bal act similarAddresses entry =
     (if front_accepted activePublicKey (fst entry) then
        (if \<not> has_pair similarAddresses activePublicKey (fst entry)
         then similarAddresses @ [make_similar activePublicKey bal act entry]
         else similarAddresses)
      else similarAddresses)"

fun findSimilarKeysForActiveAddresses ::
  "string \<Rightarrow> rat \<Rightarrow> string \<Rightarrow> (string \<times> keypairData) list \<Rightarrow> similarAddress list \<Rightarrow> similarAddress list" where
  "findSimilarKeysForActiveAddresses activePublicKey bal act [] similarAddresses = similarAddresses"
| "findSimilarKeysForActiveAddresses activePublicKey bal act (entry # generatedKeypairs) similarAddresses =
     findSimilarKeysForActiveAddresses activePublicKey bal act generatedKeypairs
       (correlate_entry activePublicKey bal act similarAddresses entry)"

text \<open>
  \<open>activeAddresses\<close> is a \<open>Map\<close> from public key to \<open>{balance, lastActivity}\<close>;
  \<open>checkForExistingSimilarities\<close> runs the correlator for each entry in turn.
\<close>

fun checkForExistingSimilarities ::
  "(string \<times> rat \<times> string) list \<Rightarrow> (string \<times> keypairData) list \<Rightarrow> similarAddress list \<Rightarrow> similarAddress list" where
  "checkForExistingSimilarities [] generatedKeypairs similarAddresses = similarAddresses"
| "checkForExistingSimilarities ((activePublicKey, bal, act) # activeAddresses) generatedKeypairs similarAddresses =
     checkForExistingSimilarities activeAddresses generatedKeypairs
       (findSimilarKeysForActiveAddresses activePublicKey bal act generatedKeypairs similarAddresses)"

definition pair_of :: "similarAddress \<Rightarrow> string \<times> string" where
  "pair_of addr = (activeAddress addr, generatedPublicKey addr)"

section \<open>JavaScript numbers\<close>

text \<open>
  A JavaScript number is an IEEE 754 binary64 value. A finite one is a rational whose
  significand has 53 bits, and every arithmetic operation returns the exact result rounded
  to the nearest such value, a tie going to the even significand. \<open>float_exp x\<close> is the
  binary exponent of \<open>x\<close>, the \<open>e\<close> with \<open>2^e \<le> |x| < 2^(e+1)\<close>; \<open>rnd\<close> rounds to the
  multiples of \<open>2^(e-52)\<close>. The exponent range of binary64 is not represented: \<open>rnd\<close> is
  the rounding of binary64 for magnitudes from \<open>2^-1022\<close> up to \<open>2^1024\<close>, and infinities
  and NaN are left out. The values that occur below stay inside that range.
\<close>

definition round_even :: "rat \<Rightarrow> int" where
  "round_even q =
     (let f = \<lfloor>q\<rfloor>; r = q - of_int f
      in if r < 1 / 2 then f else if 1 / 2 < r then f + 1 else if even f then f else f + 1)"

definition float_exp :: "rat \<Rightarrow> int" where
  "float_exp x =
     (let (a, b) = quotient_of \<bar>x\<bar>; k = bitlen a - bitlen b
      in if 2 powi k \<le> \<bar>x\<bar> then k else k - 1)"

definition rnd :: "rat \<Rightarrow> rat" where
  "rnd x =
     (if x = 0 then 0
      else (let ulp = 2 powi (float_exp x - 52) in of_int (round_even (x / ulp)) * ulp))"

text \<open>The operators \<open>+\<close>, \<open>-\<close>, \<open>*\<close> and \<open>/\<close> on numbers.\<close>

definition js_add :: "rat \<Rightarrow> rat \<Rightarrow> rat" where
  "js_add x y = rnd (x + y)"

definition js_sub :: "rat \<Rightarrow> rat \<Rightarrow> rat" where
  "js_sub x y = rnd (x - y)"

definition js_mul :: "rat \<Rightarrow> rat \<Rightarrow> rat" where
  "js_mul x y = rnd (x * y)"

definition js_div :: "rat \<Rightarrow> rat \<Rightarrow> rat" where
  "js_div x y = rnd (x / y)"

section \<open>generation.js: the rate limiter\<close>

text \<open>
  \<open>Date.now()\<close> is a whole number of milliseconds between 0 and 8.64e15, supplied by
  the environment at each call; such numbers and their differences are exact in binary64.
  \<open>maxRequests\<close>, \<open>perSeconds\<close> and the token count are numbers, and the refill and the
  decrement are computed with the rounding operators, in the order the source writes them.
\<close>

record RateLimiter =
  maxRequests :: rat
  perSeconds :: rat
  tokens :: rat
  lastRefilled :: int

definition newRateLimiter :: "rat \<Rightarrow> rat \<Rightarrow> int \<Rightarrow> RateLimiter" where
  "newRateLimiter m p now =
     \<lparr> maxRequests = m, perSeconds = p, tokens = m, lastRefilled = now \<rparr>"

definition refillTokens :: "int \<Rightarrow> RateLimiter \<Rightarrow> RateLimiter" where
  "refillTokens now r =
     (let timePassed = of_int (now - lastRefilled r);
          refillAmount = js_mul (js_div timePassed 1000) (js_div (maxRequests r) (perSeconds r))
      in r\<lparr> tokens := min (maxRequests r) (js_add (tokens r) refillAmount), lastRefilled := now \<rparr>)"

text \<open>
  One pass through the body of the \<open>while (true)\<close> loop of \<open>waitForToken\<close>: refill, then
  either take a token and return (\<open>True\<close>) or go to sleep (\<open>False\<close>). The body contains no
  \<open>await\<close> before the decrement, so the event loop runs it to completion before any other
  task: concurrent callers interleave only between passes.
\<close>

definition attempt :: "int \<Rightarrow> RateLimiter \<Rightarrow> bool \<times> RateLimiter" where
  "attempt now r =
     (let r' = refillTokens now r
      in if tokens r' > 0 then (True, r'\<lparr> tokens := js_sub (tokens r') 1 \<rparr>) else (False, r'))"

text \<open>
  \<open>waitForToken\<close> for one caller, given the clock readings of its successive passes. It
  returns the limiter and the unused readings; \<open>None\<close> when the readings run out before
  a token was granted.
\<close>

fun waitForToken :: "int list \<Rightarrow> RateLimiter \<Rightarrow> (RateLimiter \<times> int list) option" where
  "waitForToken [] r = None"
| "waitForToken (now # clock) r =
     (case attempt now r of
        (True, r') \<Rightarrow> Some (r', clock)
      | (False, r') \<Rightarrow> waitForToken clock r')"

text \<open>
  The passes of all callers together, in the order the event loop runs them: each clock
  reading is paired with whether that pass was granted a token.
\<close>

fun attempts :: "int list \<Rightarrow> RateLimiter \<Rightarrow> (int \<times> bool) list" where
  "attempts [] r = []"
| "attempts (now # clock) r = (now, fst (attempt now r)) # attempts clock (snd (attempt now r))"

text \<open>Grants whose clock reading lies in the window from \<open>a\<close> to \<open>a + w\<close> milliseconds.\<close>

definition grants_in_window :: "(int \<times> bool) list \<Rightarrow> int \<Rightarrow> int \<Rightarrow> nat" where
  "grants_in_window trace a w =
     length (filter (\<lambda>(t, granted). granted \<and> a \<le> t \<and> t \<le> a + w) trace)"

text \<open>
  A limiter in working order: a capacity of at least one that is itself a number, a
  positive period, and a token count that is a number between -1 and the capacity. Each
  grant leaves at least \<open>1 - leak\<close> less in the bucket; each millisecond adds at most
  \<open>inflow\<close>. Both allow for the rounding of every operation.
\<close>

definition bucket_ok :: "RateLimiter \<Rightarrow> bool" where
  "bucket_ok r \<longleftrightarrow>
     1 \<le> maxRequests r \<and> maxRequests r \<le> 2 ^ 53 \<and> rnd (maxRequests r) = maxRequests r
     \<and> 0 < perSeconds r
     \<and> rnd (tokens r) = tokens r \<and> - 1 \<le> tokens r \<and> tokens r \<le> maxRequests r"

definition leak :: "RateLimiter \<Rightarrow> rat" where
  "leak r = maxRequests r / 2 ^ 53"

definition inflow :: "RateLimiter \<Rightarrow> rat" where
  "inflow r = maxRequests r / (1000 * perSeconds r) * (1 + 1 / 2 ^ 53) ^ 3 + leak r"

section \<open>transaction.js: the ledger and the settings\<close>

text \<open>
  The RPC connection is an external collaborator. Its answers are inputs of the model: a
  record of lookup functions, one per call the code makes. A call that throws answers
  \<open>Inl\<close>; \<open>getTransaction\<close> answers \<open>None\<close> when the transaction is null or carries no
  \<open>accountKeys\<close> array; \<open>getAccountInfo\<close> answers \<open>None\<close> for null and otherwise
  the \<open>executable\<close> flag. Balances come back in lamports. A \<open>PublicKey\<close> is represented by
  its base58 text, so \<open>equals\<close> is equality of strings. A transfer is identified by the
  position of its target in the target list, the target's key and the amount.

  Two library calls of the dispatcher can throw. Building the transfer of a target
  (\<open>new PublicKey(target.publicKey)\<close>, then \<open>SystemProgram.transfer\<close> with the lamports)
  throws for a key that does not parse and for lamports that are not a whole number:
  \<open>buildTransfer\<close> answers \<open>Some\<close> the message then, \<open>None\<close> when the transaction is
  built. And \<open>error.getLogs()\<close>, which the source calls without a connection, throws
  when the error does not already carry its logs: a \<open>SendTransactionError\<close> comes with
  what that call does, \<open>Inl\<close> the message it throws or \<open>Inr\<close> the logs it returns.

  Amounts of SOL are lamports divided by \<open>LAMPORTS_PER_SOL\<close>, as exact rationals. The
  program compares the rounded quotient with a rounded constant; since division rounds
  monotonically and neighbouring lamport counts are far more than one rounding step apart,
  the comparison with the rent floor has the same answer in exact arithmetic.
\<close>

datatype rpc_error = RpcError string

datatype send_result =
    Confirmed
  | SendTransactionError string "string + string list"
  | OtherError string

record ledger =
  getBalance :: "string \<Rightarrow> rpc_error + nat"
  getSignaturesForAddress :: "string \<Rightarrow> nat \<Rightarrow> rpc_error + string list"
  getTransaction :: "string \<Rightarrow> rpc_error + string list option"
  getAccountInfo :: "string \<Rightarrow> rpc_error + bool option"
  buildTransfer :: "string \<Rightarrow> rat \<Rightarrow> string option"
  sendAndConfirmTransaction :: "nat \<Rightarrow> string \<Rightarrow> rat \<Rightarrow> send_result"

record settings =
  minSolActive :: rat
  minSolTarget :: rat
  maxTargets :: int
  amountToSend :: rat

record Target =
  publicKey :: string
  balance :: rat

definition EXCLUDED_ADDRESSES :: "string list" where
  "EXCLUDED_ADDRESSES =
     [''Vote111111111111111111111111111111111111111'',
      ''SysvarStakeHistory1111111111111111111111111'',
      ''Stake11111111111111111111111111111111111111'',
      ''SysvarC1ock11111111111111111111111111111111'',
      ''ComputeBudget111111111111111111111111111111'',
      ''TokenkegQfeZyiNwAJbNbGKPFXCWuBvf9Ss623VQ5DA'',
      ''ATokenGPvbdGVxr1b2hvZbsiqW5xWH25efTNsLJA8knL'',
      ''11111111111111111111111111111111'']"

text \<open>\<open>PublicKey.default\<close>: thirty-two zero bytes, in base58.\<close>

definition PublicKey_default :: string where
  "PublicKey_default = ''11111111111111111111111111111111''"

definition LAMPORTS_PER_SOL :: rat where
  "LAMPORTS_PER_SOL = 1000000000"

datatype log_level = INFO | WARNING | CRITICAL

datatype log_message =
    BalanceFetchFailed string rpc_error
  | NotEnoughForRent "rat option"
  | SentTransaction string string
  | TransactionFailed string "string list"

type_synonym log_line = "log_level \<times> log_message"

text \<open>\<open>fetchWalletBalance\<close> returns SOL, or \<open>null\<close> (here \<open>None\<close>) after logging the error.\<close>

definition fetchWalletBalance :: "ledger \<Rightarrow> string \<Rightarrow> rat option \<times> log_line list" where
  "fetchWalletBalance L pk =
     (case getBalance L pk of
        Inr balanceLamports \<Rightarrow> (Some (of_nat balanceLamports / LAMPORTS_PER_SOL), [])
      | Inl e \<Rightarrow> (None, [(CRITICAL, BalanceFetchFailed pk e)]))"

section \<open>transaction.js: target resolution\<close>

text \<open>\<open>addressSet.add\<close> on a \<open>Set\<close> of strings kept in insertion order.\<close>

definition set_add :: "string \<Rightarrow> string list \<Rightarrow> string list" where
  "set_add x xs = (if x \<in> set xs then xs else xs @ [x])"

text \<open>The inner loop of lines 99-108 over the account keys of one transaction.\<close>

fun scan_accountKeys :: "ledger \<Rightarrow> string \<Rightarrow> string list \<Rightarrow> string list \<Rightarrow> rpc_error + string list" where
  "scan_accountKeys L activeWallet [] addressSet = Inr addressSet"
| "scan_accountKeys L activeWallet (accountKey # accountKeys) addressSet =
     (case getAccountInfo L accountKey of
        Inl e \<Rightarrow> Inl e
      | Inr accountInfo \<Rightarrow>
          if accountInfo = Some True \<or> accountInfo = None \<or> accountKey \<in> set EXCLUDED_ADDRESSES
          then scan_accountKeys L activeWallet accountKeys addressSet
          else if accountKey \<noteq> PublicKey_default \<and> accountKey \<noteq> activeWallet
          then scan_accountKeys L activeWallet accountKeys (set_add accountKey addressSet)
          else scan_accountKeys L activeWallet accountKeys addressSet)"

text \<open>The outer loop of lines 95-109 over the signatures.\<close>

fun scan_transactions :: "ledger \<Rightarrow> string \<Rightarrow> string list \<Rightarrow> string list \<Rightarrow> rpc_error + string list" where
  "scan_transactions L activeWallet [] addressSet = Inr addressSet"
| "scan_transactions L activeWallet (signature # signatures) addressSet =
     (case getTransaction L signature of
        Inl e \<Rightarrow> Inl e
      | Inr None \<Rightarrow> scan_transactions L activeWallet signatures addressSet
      | Inr (Some accountKeys) \<Rightarrow>
          (case scan_accountKeys L activeWallet accountKeys addressSet of
             Inl e \<Rightarrow> Inl e
           | Inr addressSet' \<Rightarrow> scan_transactions L activeWallet signatures addressSet'))"

text \<open>\<open>Promise.all\<close> over the balance lookups: any failure fails the batch.\<close>

fun batchGetBalances :: "ledger \<Rightarrow> string list \<Rightarrow> rpc_error + (string \<times> rat) list" where
  "batchGetBalances L [] = Inr []"
| "batchGetBalances L (address # addresses) =
     (case getBalance L address of
        Inl e \<Rightarrow> Inl e
      | Inr lamports \<Rightarrow>
          (case batchGetBalances L addresses of
             Inl e \<Rightarrow> Inl e
           | Inr rest \<Rightarrow> Inr ((address, of_nat lamports / LAMPORTS_PER_SOL) # rest)))"

text \<open>The loop of lines 114-118.\<close>

definition qualifying :: "rat \<Rightarrow> (string \<times> rat) list \<Rightarrow> Target list" where
  "qualifying minSol balanceResults =
     map (\<lambda>(address, bal). \<lparr> publicKey = address, balance = bal \<rparr>)
       (filter (\<lambda>(address, bal). bal \<ge> minSol) balanceResults)"

text \<open>Lines 92-118: the targets derived from the transaction history.\<close>

definition historyTargets :: "ledger \<Rightarrow> string \<Rightarrow> rat \<Rightarrow> rpc_error + Target list" where
  "historyTargets L activeWallet minSol =
     (case getSignaturesForAddress L activeWallet 50 of
        Inl e \<Rightarrow> Inl e
      | Inr signatures \<Rightarrow>
          (case scan_transactions L activeWallet signatures [] of
             Inl e \<Rightarrow> Inl e
           | Inr addressArray \<Rightarrow>
               (case batchGetBalances L addressArray of
                  Inl e \<Rightarrow> Inl e
                | Inr balanceResults \<Rightarrow> Inr (qualifying minSol balanceResults))))"

text \<open>
  \<open>xs.slice(0, e)\<close> for a whole number \<open>e\<close>: a negative end counts from the end of
  the list.
\<close>

definition slice_to :: "'a list \<Rightarrow> int \<Rightarrow> 'a list" where
  "slice_to xs e = take (nat (if e < 0 then int (length xs) + e else e)) xs"

text \<open>
  \<open>getTargets\<close>. The call \<open>saveTargetAddresses(targets)\<close> of line 125 writes to external
  storage and does not touch the list that is returned; it is not modelled.
\<close>

definition getTargets :: "ledger \<Rightarrow> settings \<Rightarrow> string \<Rightarrow> rat \<Rightarrow> rpc_error + Target list" where
  "getTargets L st activeWallet minSol =
     (case historyTargets L activeWallet minSol of
        Inl e \<Rightarrow> Inl e
      | Inr found \<Rightarrow>
          (case getBalance L activeWallet of
             Inl e \<Rightarrow> Inl e
           | Inr lamports \<Rightarrow>
               (let activeWalletBalance = of_nat lamports / LAMPORTS_PER_SOL;
                    everyone =
                      (if activeWalletBalance \<ge> minSol
                       then found @ [\<lparr> publicKey = activeWallet, balance = activeWalletBalance \<rparr>]
                       else found)
                in Inr (slice_to everyone (maxTargets st)))))"

text \<open>
  The retry loop of \<open>getTargetsWithTimeout\<close> (lines 254-257). Each pass that gets as far
  as reading the clock consumes one pair: the value of \<open>Date.now()\<close> and the ledger as the
  pass finds it. \<open>None\<close> means the supplied readings ran out while the loop was still
  going.
\<close>

fun search_loop ::
  "settings \<Rightarrow> string \<Rightarrow> rat \<Rightarrow> int \<Rightarrow> (int \<times> ledger) list \<Rightarrow> Target list
     \<Rightarrow> (rpc_error + Target list) option" where
  "search_loop st activeWallet minSol start [] found =
     (if \<not> int (length found) < maxTargets st then Some (Inr found) else None)"
| "search_loop st activeWallet minSol start ((now, L) # passes) found =
     (if \<not> int (length found) < maxTargets st then Some (Inr found)
      else if now - start < 10000
      then (case getTargets L st activeWallet minSol of
              Inl e \<Rightarrow> Some (Inl e)
            | Inr found' \<Rightarrow> search_loop st activeWallet minSol start passes found')
      else Some (Inr found))"

text \<open>
  \<open>getTargetsWithTimeout\<close>: \<open>L0\<close> answers the first resolution, \<open>lowerMinSol\<close> is the
  operator's answer to the prompt and \<open>Lrelaxed\<close> answers the relaxed pass.
\<close>

definition getTargetsWithTimeout ::
  "settings \<Rightarrow> int \<Rightarrow> ledger \<Rightarrow> (int \<times> ledger) list \<Rightarrow> bool \<Rightarrow> ledger \<Rightarrow> string \<Rightarrow> rat
     \<Rightarrow> (rpc_error + Target list) option" where
  "getTargetsWithTimeout st start L0 passes lowerMinSol Lrelaxed activeWallet minSol =
     (case getTargets L0 st activeWallet minSol of
        Inl e \<Rightarrow> Some (Inl e)
      | Inr first \<Rightarrow>
          (case search_loop st activeWallet minSol start passes first of
             None \<Rightarrow> None
           | Some (Inl e) \<Rightarrow> Some (Inl e)
           | Some (Inr found) \<Rightarrow>
               if int (length found) < maxTargets st
               then (if lowerMinSol then Some (getTargets Lrelaxed st activeWallet 0)
                     else Some (Inr found))
               else Some (Inr found)))"

section \<open>transaction.js: the dispatcher\<close>

record DispatchOutcome =
  success :: bool
  target :: string
  error :: "string option"
  logs :: "string list option"

text \<open>
  What one run of \<open>sendTransactionsInParallel\<close> does: what its promise settles to
  (\<open>Inr\<close> the list it resolves to, \<open>Inl\<close> the message it is rejected with), the targets
  for which a transfer was handed to \<open>sendAndConfirmTransaction\<close>, and the log lines
  written. The transfers run concurrently; their log lines are listed in target order.
\<close>

record dispatch_run =
  outcomes :: "string + DispatchOutcome list"
  submitted :: "string list"
  logged :: "log_line list"

definition minBalanceForRent :: rat where
  "minBalanceForRent = 203928 / 100000000"

text \<open>In a numeric comparison JavaScript reads \<open>null\<close> as 0.\<close>

definition to_number :: "rat option \<Rightarrow> rat" where
  "to_number v = (case v of None \<Rightarrow> 0 | Some x \<Rightarrow> x)"

text \<open>
  The \<open>.then\<close> and \<open>.catch\<close> handlers of lines 148-159, as what the chained promise of
  one target settles to. The \<open>.catch\<close> handler awaits \<open>error.getLogs()\<close> for a
  \<open>SendTransactionError\<close>; when that call throws, the handler throws with it, before its
  log line, and the chained promise is rejected.
\<close>

definition transfer_outcome :: "string \<Rightarrow> send_result \<Rightarrow> string + DispatchOutcome" where
  "transfer_outcome pk res =
     (case res of
        Confirmed \<Rightarrow> Inr \<lparr> success = True, target = pk, error = None, logs = None \<rparr>
      | SendTransactionError msg fetched \<Rightarrow>
          (case fetched of
             Inl e \<Rightarrow> Inl e
           | Inr ls \<Rightarrow> Inr \<lparr> success = False, target = pk, error = Some msg, logs = Some ls \<rparr>)
      | OtherError msg \<Rightarrow>
          Inr \<lparr> success = False, target = pk, error = Some msg, logs = Some [] \<rparr>)"

definition transfer_log :: "string \<Rightarrow> string \<Rightarrow> send_result \<Rightarrow> log_line list" where
  "transfer_log generatedKey pk res =
     (case res of
        Confirmed \<Rightarrow> [(INFO, SentTransaction generatedKey pk)]
      | SendTransactionError msg fetched \<Rightarrow>
          (case fetched of
             Inl e \<Rightarrow> []
           | Inr ls \<Rightarrow> [(CRITICAL, TransactionFailed msg ls)])
      | OtherError msg \<Rightarrow> [(CRITICAL, TransactionFailed msg [])])"

text \<open>
  \<open>targets.map\<close> of line 140 runs its callback on the targets in order, synchronously.
  The callback builds the transfer and hands it to \<open>sendAndConfirmTransaction\<close>; when the
  building throws, the exception leaves \<open>map\<close> and the function, and the targets that
  follow are never reached. The result is the transfers that were started, each with its
  target's key and what it settles to, and the message thrown, if any.
\<close>

fun start_transfers ::
  "ledger \<Rightarrow> rat \<Rightarrow> nat \<Rightarrow> Target list \<Rightarrow> (string \<times> send_result) list \<times> string option" where
  "start_transfers L lamports i [] = ([], None)"
| "start_transfers L lamports i (t # ts) =
     (case buildTransfer L (publicKey t) lamports of
        Some e \<Rightarrow> ([], Some e)
      | None \<Rightarrow>
          (let (started, thrown) = start_transfers L lamports (Suc i) ts
           in ((publicKey t, sendAndConfirmTransaction L i (publicKey t) lamports) # started,
               thrown)))"

text \<open>
  \<open>Promise.all\<close>: it resolves to the list of all values, and is rejected when one of its
  members is. Of several rejections the first in list order is the one reported here; in
  the program it is the first in time.
\<close>

fun promise_all :: "(string + 'a) list \<Rightarrow> string + 'a list" where
  "promise_all [] = Inr []"
| "promise_all (Inl e # ps) = Inl e"
| "promise_all (Inr x # ps) =
     (case promise_all ps of Inl e \<Rightarrow> Inl e | Inr xs \<Rightarrow> Inr (x # xs))"

definition sendTransactionsInParallel ::
  "ledger \<Rightarrow> settings \<Rightarrow> string \<Rightarrow> Target list \<Rightarrow> dispatch_run" where
  "sendTransactionsInParallel L st generatedKey targetList =
     (let (generatedBalance, fetchLog) = fetchWalletBalance L generatedKey
      in if to_number generatedBalance < minBalanceForRent
         then \<lparr> outcomes = Inr [], submitted = [],
                logged = fetchLog @ [(CRITICAL, NotEnoughForRent generatedBalance)] \<rparr>
         else
           (let lamports = js_mul (amountToSend st) LAMPORTS_PER_SOL;
                (transactions, thrown) = start_transfers L lamports 0 targetList
            in \<lparr> outcomes =
                   (case thrown of
                      Some e \<Rightarrow> Inl e
                    | None \<Rightarrow> promise_all (map (\<lambda>(pk, res). transfer_outcome pk res) transactions)),
                 submitted = map fst transactions,
                 logged =
                   fetchLog @ concat (map (\<lambda>(pk, res). transfer_log generatedKey pk res) transactions) \<rparr>))"

record targetLog =
  tl_publicKey :: string
  tl_balance :: rat
  sentSuccessful :: bool

record TransactionLogEntry =
  timestamp :: string
  generatedWallet :: "string \<times> rat option \<times> string"
  activeWallet :: "string \<times> rat option"
  mainWallet :: "rat option"
  targets :: "targetLog list"
  transactionStatus :: string

text \<open>
  \<open>transactionResults.find(result => result.target === target.publicKey)?.success || false\<close>
\<close>

definition sent_ok :: "DispatchOutcome list \<Rightarrow> string \<Rightarrow> bool" where
  "sent_ok transactionResults pk =
     (case List.find (\<lambda>result. target result = pk) transactionResults of
        None \<Rightarrow> False
      | Some result \<Rightarrow> success result)"

text \<open>
  \<open>logTransactionDetails\<close> builds the entry that is appended to the monitored-wallets
  file. The operator wallet's key and the time stamp are inputs.
\<close>

definition logTransactionDetails ::
  "ledger \<Rightarrow> string \<Rightarrow> string \<Rightarrow> keypairData \<Rightarrow> string \<Rightarrow> Target list \<Rightarrow> DispatchOutcome list
     \<Rightarrow> TransactionLogEntry" where
  "logTransactionDetails L mainWalletKey now generatedKeypair activeWalletKey targetList transactionResults =
     \<lparr> timestamp = now,
       generatedWallet =
         (kd_publicKey generatedKeypair,
          fst (fetchWalletBalance L (kd_publicKey generatedKeypair)),
          secretKey generatedKeypair),
       activeWallet = (activeWalletKey, fst (fetchWalletBalance L activeWalletKey)),
       mainWallet = fst (fetchWalletBalance L mainWalletKey),
       targets =
         map (\<lambda>t. \<lparr> tl_publicKey = publicKey t, tl_balance = balance t,
                     sentSuccessful = sent_ok transactionResults (publicKey t) \<rparr>) targetList,
       transactionStatus =
         (if list_all (\<lambda>result. success result) transactionResults
          then ''Success'' else ''Partial Failure'') \<rparr>"

text \<open>
  Lines 245 and 247 of \<open>viewTargets\<close>: the outcomes of the dispatch are what the log entry
  is built from; when the dispatch is rejected, the exception leaves \<open>viewTargets\<close> and
  no entry is written. \<open>Lsend\<close> is the ledger as the dispatch finds it, \<open>Llog\<close> as the
  logging finds it afterwards.
\<close>

definition dispatch_and_log ::
  "ledger \<Rightarrow> ledger \<Rightarrow> settings \<Rightarrow> string \<Rightarrow> string \<Rightarrow> keypairData \<Rightarrow> string \<Rightarrow> Target list
     \<Rightarrow> string + TransactionLogEntry" where
  "dispatch_and_log Lsend Llog st mainWalletKey now generatedKeypair activeWalletKey targetList =
     (case outcomes (sendTransactionsInParallel Lsend st (kd_publicKey generatedKeypair) targetList) of
        Inl e \<Rightarrow> Inl e
      | Inr transactionResults \<Rightarrow>
          Inr (logTransactionDetails Llog mainWalletKey now generatedKeypair activeWalletKey
                 targetList transactionResults))"

text \<open>
  An address collected from the history passes three tests (lines 102-105): it is not on
  the exclusion list, not the default key and not the active wallet.
\<close>

definition admissible :: "string \<Rightarrow> string \<Rightarrow> bool" where
  "admissible activeKey k \<longleftrightarrow>
     k \<notin> set EXCLUDED_ADDRESSES \<and> k \<noteq> PublicKey_default \<and> k \<noteq> activeKey"

section \<open>Concrete inputs\<close>

text \<open>
  A two-entry pool and one stored match for the active address \<open>ABCDEF\<close>; the default
  settings of settings.js; a ledger on which every account holds 2 SOL, the history is one
  transaction naming three plain accounts, and the second transfer of a dispatch fails;
  the same ledger with every account at 0.001 SOL.
\<close>

definition example_pool :: "(string \<times> keypairData) list" where
  "example_pool =
     [(''ABCDXY'', \<lparr> kd_publicKey = ''ABCDXY'', secretKey = ''s1'' \<rparr>),
      (''ABXDEF'', \<lparr> kd_publicKey = ''ABXDEF'', secretKey = ''s2'' \<rparr>)]"

definition example_match :: similarAddress where
  "example_match =
     \<lparr> activeAddress = ''ABCDEF'', generatedPublicKey = ''ABCDXY'', generatedSecretKey = ''s1'',
       activeBalance = 1, frontMatches = 4, endMatches = 4, lastActivity = ''t1'' \<rparr>"

definition example_settings :: settings where
  "example_settings =
     \<lparr> minSolActive = 1, minSolTarget = 1 / 100, maxTargets = 10, amountToSend = 1 / 100 \<rparr>"

definition example_ledger :: ledger where
  "example_ledger =
     \<lparr> getBalance = (\<lambda>pk. Inr 2000000000),
       getSignaturesForAddress = (\<lambda>pk limit. Inr [''sig1'']),
       getTransaction = (\<lambda>signature. Inr (Some [''walletA'', ''walletB'', ''walletC''])),
       getAccountInfo = (\<lambda>pk. Inr (Some False)),
       buildTransfer = (\<lambda>pk lamports. None),
       sendAndConfirmTransaction =
         (\<lambda>i pk lamports. if i = 1 then SendTransactionError ''blockhash not found'' (Inr [''log line''])
                           else Confirmed) \<rparr>"

definition poor_ledger :: ledger where
  "poor_ledger = example_ledger \<lparr> getBalance := (\<lambda>pk. Inr 1000000) \<rparr>"

definition example_targets :: "Target list" where
  "example_targets =
     [\<lparr> publicKey = ''walletA'', balance = 2 \<rparr>, \<lparr> publicKey = ''walletB'', balance = 2 \<rparr>]"

definition example_keypair :: keypairData where
  "example_keypair = \<lparr> kd_publicKey = ''ABCDXY'', secretKey = ''s1'' \<rparr>"

text \<open>
  For the dispatcher: a dispatch wallet and two targets with keys in base58 that decode to
  32 bytes; settings whose \<open>amountToSend\<close> is the number 0.01, and settings where it is the
  number 0.067, whose product with \<open>LAMPORTS_PER_SOL\<close> is 67000000.00000001; a ledger that
  holds 2 SOL in every account, builds a transfer when the lamports are a whole number, and
  fails the second transfer with a \<open>SendTransactionError\<close> that carries its logs; the same
  ledger where that error does not carry them, so that \<open>getLogs()\<close> throws; and the same
  ledger with every account at 0.001 SOL.
\<close>

definition dispatch_wallet :: string where
  "dispatch_wallet = ''4wBqpZM9xaSheZzJSMawUKKwhdpChKbZ5eu5ky4Vigw''"

definition dispatch_targets :: "Target list" where
  "dispatch_targets =
     [\<lparr> publicKey = ''29d2S7vB453rNYFdR5Ycwt7y9haRT5fwVwL9zTmBhfV2'', balance = 2 \<rparr>,
      \<lparr> publicKey = ''3JF3sEqM796hk5WFqA6EtmEwJQ9quALszsfJyvXNQKy3'', balance = 2 \<rparr>]"

definition dispatch_settings :: settings where
  "dispatch_settings =
     \<lparr> minSolActive = 1, minSolTarget = 5764607523034235 / 576460752303423488, maxTargets = 10, amountToSend = 5764607523034235 / 576460752303423488 \<rparr>"

definition odd_settings :: settings where
  "odd_settings = dispatch_settings \<lparr> amountToSend := 1206964700135293 / 18014398509481984 \<rparr>"

definition served_ledger :: ledger where
  "served_ledger =
     \<lparr> getBalance = (\<lambda>pk. Inr 2000000000),
       getSignaturesForAddress = (\<lambda>pk limit. Inr []),
       getTransaction = (\<lambda>signature. Inr None),
       getAccountInfo = (\<lambda>pk. Inr (Some False)),
       buildTransfer =
         (\<lambda>pk lamports. if lamports = of_int \<lfloor>lamports\<rfloor> then None
                        else Some ''The number cannot be converted to a BigInt''),
       sendAndConfirmTransaction =
         (\<lambda>i pk lamports. if i = 1 then SendTransactionError ''blockhash not found'' (Inr [''log line''])
                           else Confirmed) \<rparr>"

definition uncached_ledger :: ledger where
  "uncached_ledger =
     served_ledger \<lparr> sendAndConfirmTransaction :=
       (\<lambda>i pk lamports. if i = 1
          then SendTransactionError ''blockhash not found''
                 (Inl ''Cannot read properties of undefined'')
          else Confirmed) \<rparr>"

definition unfunded_ledger :: ledger where
  "unfunded_ledger = served_ledger \<lparr> getBalance := (\<lambda>pk. Inr 1000000) \<rparr>"

lemmas example_correlator_defs =
  example_pool_def example_match_def correlate_entry_def front_accepted_def has_pair_def
  make_similar_def slice_front_def slice_back_def positional_matches_def countEndMatches_def
  MIN_FRONT_SIMILARITY_def pair_of_def

lemmas example_ledger_defs =
  example_settings_def example_ledger_def poor_ledger_def example_targets_def example_keypair_def

lemmas dispatch_example_defs =
  dispatch_wallet_def dispatch_targets_def dispatch_settings_def odd_settings_def
  served_ledger_def uncached_ledger_def unfunded_ledger_def

lemmas resolver_defs =
  getTargets_def historyTargets_def qualifying_def slice_to_def set_add_def
  EXCLUDED_ADDRESSES_def PublicKey_default_def LAMPORTS_PER_SOL_def

lemmas dispatcher_defs =
  sendTransactionsInParallel_def fetchWalletBalance_def to_number_def minBalanceForRent_def
  LAMPORTS_PER_SOL_def transfer_outcome_def transfer_log_def logTransactionDetails_def
  dispatch_and_log_def sent_ok_def

section \<open>Properties of the correlator\<close>

lemma front_accepted_take: "front_accepted a g \<longleftrightarrow> take 4 a = take 4 g"
  by (simp add: front_accepted_def slice_front_def MIN_FRONT_SIMILARITY_def)

lemma has_pair_set: "has_pair S a g \<longleftrightarrow> (a, g) \<in> pair_of ` set S"
  by (auto simp: has_pair_def list_ex_iff pair_of_def)

lemma has_pair_Nil: "has_pair [] a g = False"
  by (simp add: has_pair_def)

lemma has_pair_append: "has_pair (S @ T) a g \<longleftrightarrow> has_pair S a g \<or> has_pair T a g"
  by (auto simp: has_pair_def list_ex_iff)

lemma pair_of_make_similar: "pair_of (make_similar A b l e) = (A, fst e)"
  by (simp add: pair_of_def make_similar_def)

lemma has_pair_correlate_entry:
  "has_pair (correlate_entry A b l S e) a g \<longleftrightarrow>
     has_pair S a g \<or> (a = A \<and> g = fst e \<and> front_accepted A g)"
  by (auto simp: correlate_entry_def has_pair_set pair_of_make_similar)

lemma has_pair_findSimilar:
  "has_pair (findSimilarKeysForActiveAddresses A b l pool S) a g \<longleftrightarrow>
     has_pair S a g \<or> (a = A \<and> g \<in> fst ` set pool \<and> front_accepted A g)"
  by (induction pool arbitrary: S) (auto simp: has_pair_correlate_entry)

lemma findSimilar_fixed:
  "(\<And>g. g \<in> fst ` set pool \<Longrightarrow> front_accepted A g \<Longrightarrow> has_pair S A g) \<Longrightarrow>
   findSimilarKeysForActiveAddresses A b l pool S = S"
proof (induction pool arbitrary: S)
  case Nil
  then show ?case by simp
next
  case (Cons e pool)
  have "correlate_entry A b l S e = S"
    using Cons.prems [of "fst e"] by (simp add: correlate_entry_def)
  with Cons show ?case by simp
qed

lemma has_pair_check:
  "has_pair (checkForExistingSimilarities act pool S) a g \<longleftrightarrow>
     has_pair S a g \<or> (a \<in> fst ` set act \<and> g \<in> fst ` set pool \<and> front_accepted a g)"
  by (induction act pool S rule: checkForExistingSimilarities.induct)
     (auto simp: has_pair_findSimilar)

lemma check_fixed:
  "(\<And>a g. a \<in> fst ` set act \<Longrightarrow> g \<in> fst ` set pool \<Longrightarrow> front_accepted a g \<Longrightarrow> has_pair S a g) \<Longrightarrow>
   checkForExistingSimilarities act pool S = S"
proof (induction act arbitrary: S)
  case Nil
  then show ?case by simp
next
  case (Cons x act)
  obtain A b l where x: "x = (A, b, l)" by (cases x)
  have "findSimilarKeysForActiveAddresses A b l pool S = S"
    by (rule findSimilar_fixed) (simp add: Cons.prems x)
  moreover have "checkForExistingSimilarities act pool S = S"
    by (rule Cons.IH) (simp add: Cons.prems)
  ultimately show ?case by (simp add: x)
qed

lemma correlate_entry_extends: "\<exists>ys. correlate_entry A b l S e = S @ ys"
  by (simp add: correlate_entry_def)

lemma findSimilar_extends: "\<exists>ys. findSimilarKeysForActiveAddresses A b l pool S = S @ ys"
proof (induction pool arbitrary: S)
  case Nil
  then show ?case by simp
next
  case (Cons e pool)
  obtain ys where 1: "correlate_entry A b l S e = S @ ys"
    using correlate_entry_extends by blast
  obtain zs where "findSimilarKeysForActiveAddresses A b l pool (S @ ys) = (S @ ys) @ zs"
    using Cons.IH by blast
  with 1 show ?case by simp
qed

lemma distinct_correlate_entry:
  "distinct (map pair_of S) \<Longrightarrow> distinct (map pair_of (correlate_entry A b l S e))"
  by (auto simp: correlate_entry_def has_pair_set pair_of_make_similar)

lemma distinct_findSimilar:
  "distinct (map pair_of S) \<Longrightarrow>
   distinct (map pair_of (findSimilarKeysForActiveAddresses A b l pool S))"
  by (induction pool arbitrary: S) (auto simp: distinct_correlate_entry)

lemma distinct_check:
  "distinct (map pair_of S) \<Longrightarrow>
   distinct (map pair_of (checkForExistingSimilarities act pool S))"
  by (induction act pool S rule: checkForExistingSimilarities.induct)
     (auto simp: distinct_findSimilar)

lemma filter_pair_correlate_entry:
  "has_pair S a g \<Longrightarrow>
   filter (\<lambda>r. pair_of r = (a, g)) (correlate_entry A b l S e) = filter (\<lambda>r. pair_of r = (a, g)) S"
  by (auto simp: correlate_entry_def pair_of_make_similar)

lemma filter_pair_findSimilar:
  "has_pair S a g \<Longrightarrow>
   filter (\<lambda>r. pair_of r = (a, g)) (findSimilarKeysForActiveAddresses A b l pool S)
     = filter (\<lambda>r. pair_of r = (a, g)) S"
proof (induction pool arbitrary: S)
  case Nil
  then show ?case by simp
next
  case (Cons e pool)
  have "has_pair (correlate_entry A b l S e) a g"
    using Cons.prems by (simp add: has_pair_correlate_entry)
  from Cons.IH [OF this] Cons.prems show ?case
    by (simp add: filter_pair_correlate_entry)
qed


lemma new_records_findSimilar:
  "r \<in> set (drop (length S) (findSimilarKeysForActiveAddresses A b l pool S)) \<Longrightarrow>
   \<exists>e \<in> set pool. r = make_similar A b l e \<and> front_accepted A (fst e)"
proof (induction pool arbitrary: S)
  case Nil
  then show ?case by simp
next
  case (Cons e pool)
  let ?S' = "correlate_entry A b l S e"
  obtain zs where zs: "findSimilarKeysForActiveAddresses A b l pool ?S' = ?S' @ zs"
    using findSimilar_extends by blast
  have zs_set: "set zs = set (drop (length ?S') (findSimilarKeysForActiveAddresses A b l pool ?S'))"
    by (simp add: zs)
  show ?case
  proof (cases "?S' = S")
    case True
    with Cons.prems have "r \<in> set (drop (length ?S') (findSimilarKeysForActiveAddresses A b l pool ?S'))"
      by simp
    from Cons.IH [OF this] show ?thesis by auto
  next
    case False
    then have acc: "front_accepted A (fst e)" and S': "?S' = S @ [make_similar A b l e]"
      by (auto simp: correlate_entry_def split: if_splits)
    from zs have "findSimilarKeysForActiveAddresses A b l pool (S @ [make_similar A b l e])
        = S @ [make_similar A b l e] @ zs"
      by (simp add: S')
    with Cons.prems have "r \<in> set ([make_similar A b l e] @ zs)"
      by (simp add: S')
    then consider "r = make_similar A b l e" | "r \<in> set zs" by auto
    then show ?thesis
    proof cases
      case 1
      with acc show ?thesis by auto
    next
      case 2
      then have "r \<in> set (drop (length ?S') (findSimilarKeysForActiveAddresses A b l pool ?S'))"
        by (simp only: zs_set)
      from Cons.IH [OF this] show ?thesis by auto
    qed
  qed
qed

text \<open>
  Claim C1. For an active address \<open>A\<close> and a key \<open>G\<close> of the pool, after the correlator
  has run the match set holds a record for the pair \<open>(A, G)\<close> exactly when it held one
  before or the first four characters of \<open>A\<close> and \<open>G\<close> agree; started on the empty match
  set, exactly when the first four characters agree. Every record the run appends is the
  record built for some pool entry whose first four characters agree with those of \<open>A\<close>,
  with the front and end counts stored in it as computed: the counts are carried along and
  are not what the test looks at.
\<close>

theorem match_iff_front_four:
  "(G \<in> fst ` set generatedKeypairs \<longrightarrow>
      (has_pair (findSimilarKeysForActiveAddresses A b l generatedKeypairs S) A G
         \<longleftrightarrow> has_pair S A G \<or> take 4 A = take 4 G))
   \<and> (G \<in> fst ` set generatedKeypairs \<longrightarrow>
      (has_pair (findSimilarKeysForActiveAddresses A b l generatedKeypairs []) A G
         \<longleftrightarrow> take 4 A = take 4 G))
   \<and> (\<forall>r \<in> set (drop (length S) (findSimilarKeysForActiveAddresses A b l generatedKeypairs S)).
        \<exists>e \<in> set generatedKeypairs. r = make_similar A b l e \<and> take 4 A = take 4 (fst e))"
proof (intro conjI impI ballI)
  assume "G \<in> fst ` set generatedKeypairs"
  then show "has_pair (findSimilarKeysForActiveAddresses A b l generatedKeypairs S) A G
         \<longleftrightarrow> has_pair S A G \<or> take 4 A = take 4 G"
    by (simp add: has_pair_findSimilar front_accepted_take)
next
  assume "G \<in> fst ` set generatedKeypairs"
  then show "has_pair (findSimilarKeysForActiveAddresses A b l generatedKeypairs []) A G
         \<longleftrightarrow> take 4 A = take 4 G"
    by (simp add: has_pair_findSimilar front_accepted_take has_pair_Nil)
next
  fix r
  assume "r \<in> set (drop (length S) (findSimilarKeysForActiveAddresses A b l generatedKeypairs S))"
  from new_records_findSimilar [OF this]
  show "\<exists>e \<in> set generatedKeypairs. r = make_similar A b l e \<and> take 4 A = take 4 (fst e)"
    by (simp add: front_accepted_take)
qed

theorem match_iff_front_four_witness:
  "''ABCDXY'' \<in> fst ` set example_pool \<and> ''ABXDEF'' \<in> fst ` set example_pool
   \<and> has_pair (findSimilarKeysForActiveAddresses ''ABCDEF'' 2 ''t'' example_pool []) ''ABCDEF'' ''ABCDXY''
   \<and> \<not> has_pair (findSimilarKeysForActiveAddresses ''ABCDEF'' 2 ''t'' example_pool []) ''ABCDEF'' ''ABXDEF''
   \<and> drop (length ([]::similarAddress list)) (findSimilarKeysForActiveAddresses ''ABCDEF'' 2 ''t'' example_pool [])
       = [make_similar ''ABCDEF'' 2 ''t'' (hd example_pool)]
   \<and> frontMatches (make_similar ''ABCDEF'' 2 ''t'' (hd example_pool)) = 4
   \<and> endMatches (make_similar ''ABCDEF'' 2 ''t'' (hd example_pool)) = 4"
  using match_iff_front_four [of "''ABCDXY''" example_pool "''ABCDEF''" 2 "''t''" "[]"]
        match_iff_front_four [of "''ABXDEF''" example_pool "''ABCDEF''" 2 "''t''" "[]"]
  by (simp add: example_correlator_defs)

text \<open>
  Claim C7. Running the correlator a second time for the same active address over the same
  pool leaves the match set as the first run left it, whatever balance and activity stamp
  the second run is given; so does a second full re-scan over the same active addresses and
  pool. A match set with at most one record per pair (active address, generated key) still
  has at most one record per pair after a run or a re-scan.
\<close>

theorem correlation_idempotent:
  "findSimilarKeysForActiveAddresses A b2 l2 generatedKeypairs
       (findSimilarKeysForActiveAddresses A b1 l1 generatedKeypairs S)
     = findSimilarKeysForActiveAddresses A b1 l1 generatedKeypairs S
   \<and> checkForExistingSimilarities activeAddresses generatedKeypairs
       (checkForExistingSimilarities activeAddresses generatedKeypairs S)
     = checkForExistingSimilarities activeAddresses generatedKeypairs S
   \<and> (distinct (map pair_of S) \<longrightarrow>
        distinct (map pair_of (findSimilarKeysForActiveAddresses A b1 l1 generatedKeypairs S))
        \<and> distinct (map pair_of (checkForExistingSimilarities activeAddresses generatedKeypairs S)))"
proof (intro conjI impI)
  show "findSimilarKeysForActiveAddresses A b2 l2 generatedKeypairs
       (findSimilarKeysForActiveAddresses A b1 l1 generatedKeypairs S)
     = findSimilarKeysForActiveAddresses A b1 l1 generatedKeypairs S"
    by (rule findSimilar_fixed) (simp add: has_pair_findSimilar)
  show "checkForExistingSimilarities activeAddresses generatedKeypairs
       (checkForExistingSimilarities activeAddresses generatedKeypairs S)
     = checkForExistingSimilarities activeAddresses generatedKeypairs S"
    by (rule check_fixed) (simp add: has_pair_check)
next
  assume "distinct (map pair_of S)"
  then show "distinct (map pair_of (findSimilarKeysForActiveAddresses A b1 l1 generatedKeypairs S))"
    by (rule distinct_findSimilar)
next
  assume "distinct (map pair_of S)"
  then show "distinct (map pair_of (checkForExistingSimilarities activeAddresses generatedKeypairs S))"
    by (rule distinct_check)
qed

theorem correlation_idempotent_witness:
  "distinct (map pair_of [example_match])
   \<and> findSimilarKeysForActiveAddresses ''ABCDEF'' 2 ''t2'' example_pool [example_match] = [example_match]
   \<and> distinct (map pair_of (findSimilarKeysForActiveAddresses ''ABCDEF'' 2 ''t2'' example_pool [example_match]))
   \<and> length (checkForExistingSimilarities [(''ABCDEF'', 2, ''t2''), (''ABXDZZ'', 3, ''t3'')] example_pool
        (checkForExistingSimilarities [(''ABCDEF'', 2, ''t2''), (''ABXDZZ'', 3, ''t3'')] example_pool [example_match])) = 2"
  using correlation_idempotent [of "''ABCDEF''" 2 "''t2''" example_pool 2 "''t2''" "[example_match]"
               "[(''ABCDEF'', 2, ''t2''), (''ABXDZZ'', 3, ''t3'')]"]
  by (simp add: example_correlator_defs)

text \<open>
  Claim C8, as stated, fails: the stored record for \<open>(ABCDEF, ABCDXY)\<close> carries balance 1
  and stamp \<open>t1\<close>; the re-scan supplies balance 2 and stamp \<open>t2\<close>; afterwards the
  record still carries balance 1 and stamp \<open>t1\<close>.
\<close>

theorem rescan_no_refresh_counterexample:
  "has_pair [example_match] ''ABCDEF'' ''ABCDXY''
   \<and> map activeBalance (findSimilarKeysForActiveAddresses ''ABCDEF'' 2 ''t2'' example_pool [example_match]) = [1]
   \<and> map lastActivity (findSimilarKeysForActiveAddresses ''ABCDEF'' 2 ''t2'' example_pool [example_match]) = [''t1'']"
  by (simp add: example_correlator_defs)

text \<open>
  Claim C8, amended. When correlation re-runs for a pair that already has a record, nothing
  is refreshed: every record that was in the match set is still there, in place and with
  all its fields as they were, and the records of that pair are exactly the ones that were
  there before.
\<close>

theorem rescan_keeps_stored_record:
  "has_pair S A G \<Longrightarrow>
     take (length S) (findSimilarKeysForActiveAddresses A b l generatedKeypairs S) = S
     \<and> filter (\<lambda>r. pair_of r = (A, G)) (findSimilarKeysForActiveAddresses A b l generatedKeypairs S)
         = filter (\<lambda>r. pair_of r = (A, G)) S"
proof
  obtain ys where "findSimilarKeysForActiveAddresses A b l generatedKeypairs S = S @ ys"
    using findSimilar_extends by blast
  then show "take (length S) (findSimilarKeysForActiveAddresses A b l generatedKeypairs S) = S"
    by simp
next
  assume "has_pair S A G"
  then show "filter (\<lambda>r. pair_of r = (A, G)) (findSimilarKeysForActiveAddresses A b l generatedKeypairs S)
         = filter (\<lambda>r. pair_of r = (A, G)) S"
    by (rule filter_pair_findSimilar)
qed

theorem rescan_keeps_stored_record_witness:
  "has_pair [example_match] ''ABCDEF'' ''ABCDXY''
   \<and> take (length [example_match]) (findSimilarKeysForActiveAddresses ''ABCDEF'' 2 ''t2'' example_pool [example_match])
       = [example_match]
   \<and> filter (\<lambda>r. pair_of r = (''ABCDEF'', ''ABCDXY''))
        (findSimilarKeysForActiveAddresses ''ABCDEF'' 2 ''t2'' example_pool [example_match]) = [example_match]"
proof -
  have h: "has_pair [example_match] ''ABCDEF'' ''ABCDXY''"
    by (simp add: example_correlator_defs)
  show ?thesis
    using h rescan_keeps_stored_record [OF h, of 2 "''t2''" example_pool]
    by (simp add: example_match_def pair_of_def)
qed

section \<open>Properties of rounding\<close>

lemma round_even_of_int [simp]: "round_even (of_int n) = n"
  by (simp add: round_even_def)

lemma round_even_error: "\<bar>of_int (round_even q) - q\<bar> \<le> 1 / 2"
proof -
  have "of_int \<lfloor>q\<rfloor> \<le> q" "q < of_int \<lfloor>q\<rfloor> + 1"
    by linarith+
  then show ?thesis
    by (auto simp: round_even_def Let_def)
qed

lemma round_even_ge: "of_int n \<le> q \<Longrightarrow> n \<le> round_even q"
proof -
  assume "of_int n \<le> q"
  then have "n \<le> \<lfloor>q\<rfloor>" by (simp add: le_floor_iff)
  then show ?thesis by (auto simp: round_even_def Let_def)
qed

lemma round_even_le: "q \<le> of_int n \<Longrightarrow> round_even q \<le> n"
proof -
  assume q: "q \<le> of_int n"
  then have f: "\<lfloor>q\<rfloor> \<le> n" by (simp add: floor_le_iff) 
  show ?thesis
  proof (cases "q = of_int \<lfloor>q\<rfloor>")
    case True
    then have "round_even q = \<lfloor>q\<rfloor>"
      by (metis round_even_of_int)
    with f show ?thesis by simp
  next
    case False
    have "of_int \<lfloor>q\<rfloor> \<le> q" by linarith
    with False have "of_int \<lfloor>q\<rfloor> < q" by linarith
    with q have "(of_int \<lfloor>q\<rfloor> :: rat) < of_int n" by linarith
    then have "\<lfloor>q\<rfloor> < n" by simp
    then show ?thesis by (auto simp: round_even_def Let_def)
  qed
qed

lemma float_exp_bounds:
  assumes "x \<noteq> 0"
  shows "2 powi (float_exp x) \<le> \<bar>x\<bar>" and "\<bar>x\<bar> < 2 powi (float_exp x + 1)"
proof -
  obtain a b where q: "quotient_of \<bar>x\<bar> = (a, b)" by (cases "quotient_of \<bar>x\<bar>")
  have b: "0 < b" using q by (rule quotient_of_denom_pos)
  have x: "\<bar>x\<bar> = of_int a / of_int b" using q by (rule quotient_of_div)
  have xa: "\<bar>x\<bar> * of_int b = of_int a" using x b by simp
  have a: "0 < a"
  proof -
    have "0 < \<bar>x\<bar> * of_int b" using assms b by simp
    then show ?thesis unfolding xa by simp
  qed
  define la where "la = bitlen a"
  define lb where "lb = bitlen b"
  define k where "k = la - lb"
  have la: "1 \<le> la" using a unfolding la_def by (simp add: bitlen_alt_def)
  have lb: "1 \<le> lb" using b unfolding lb_def by (simp add: bitlen_alt_def)
  from bitlen_bounds [OF a] have a1: "2 ^ nat (la - 1) \<le> a" and a2: "a < 2 ^ nat la"
    by (simp_all add: la_def)
  from bitlen_bounds [OF b] have b1: "2 ^ nat (lb - 1) \<le> b" and b2: "b < 2 ^ nat lb"
    by (simp_all add: lb_def)
  have A1: "(2::rat) powi (la - 1) \<le> of_int a"
  proof -
    have "(of_int (2 ^ nat (la - 1)) :: rat) \<le> of_int a" using a1 by (simp only: of_int_le_iff)
    then show ?thesis using la by (simp add: power_int_nonneg_exp)
  qed
  have A2: "of_int a < (2::rat) powi la"
  proof -
    have "(of_int a :: rat) < of_int (2 ^ nat la)" using a2 by (simp only: of_int_less_iff)
    then show ?thesis using la by (simp add: power_int_nonneg_exp)
  qed
  have B1: "(2::rat) powi (lb - 1) \<le> of_int b"
  proof -
    have "(of_int (2 ^ nat (lb - 1)) :: rat) \<le> of_int b" using b1 by (simp only: of_int_le_iff)
    then show ?thesis using lb by (simp add: power_int_nonneg_exp)
  qed
  have B2: "of_int b < (2::rat) powi lb"
  proof -
    have "(of_int b :: rat) < of_int (2 ^ nat lb)" using b2 by (simp only: of_int_less_iff)
    then show ?thesis using lb by (simp add: power_int_nonneg_exp)
  qed
  have xpos: "0 < \<bar>x\<bar>" using assms by simp
  have up: "\<bar>x\<bar> < 2 powi (k + 1)"
  proof -
    have "\<bar>x\<bar> * 2 powi (lb - 1) \<le> \<bar>x\<bar> * of_int b"
      using B1 xpos by (intro mult_left_mono) auto
    also have "\<dots> < 2 powi la" using A2 by (simp only: xa)
    also have "\<dots> = 2 powi (k + 1) * 2 powi (lb - 1)"
      by (simp add: k_def flip: power_int_add)
    finally show ?thesis by simp
  qed
  have lo: "2 powi (k - 1) < \<bar>x\<bar>"
  proof -
    have "2 powi (k - 1) * 2 powi lb = (2::rat) powi (la - 1)"
      by (simp add: k_def flip: power_int_add)
    also have "\<dots> \<le> \<bar>x\<bar> * of_int b" using A1 by (simp only: xa)
    also have "\<dots> < \<bar>x\<bar> * 2 powi lb"
      using B2 xpos by (intro mult_strict_left_mono) auto
    finally show ?thesis by simp
  qed
  have fe: "float_exp x = (if 2 powi k \<le> \<bar>x\<bar> then k else k - 1)"
    by (simp add: float_exp_def q k_def la_def lb_def)
  show "2 powi (float_exp x) \<le> \<bar>x\<bar>"
    using lo by (simp add: fe)
  show "\<bar>x\<bar> < 2 powi (float_exp x + 1)"
    using up by (auto simp: fe)
qed

lemma float_exp_unique:
  assumes "2 powi e \<le> \<bar>x\<bar>" "\<bar>x\<bar> < 2 powi (e + 1)"
  shows "float_exp x = e"
proof -
  have x: "x \<noteq> 0"
  proof
    assume "x = 0"
    with assms(1) have "(2::rat) powi e \<le> 0" by simp
    moreover have "(0::rat) < 2 powi e" by simp
    ultimately show False by linarith
  qed
  note b = float_exp_bounds [OF x]
  have "(2::rat) powi e < 2 powi (float_exp x + 1)" using assms(1) b(2) by linarith
  then have 1: "e < float_exp x + 1"
    using power_int_increasing [of "float_exp x + 1" e "2::rat"] by (cases "e < float_exp x + 1") auto
  have "(2::rat) powi (float_exp x) < 2 powi (e + 1)" using assms(2) b(1) by linarith
  then have 2: "float_exp x < e + 1"
    using power_int_increasing [of "e + 1" "float_exp x" "2::rat"] by (cases "float_exp x < e + 1") auto
  from 1 2 show ?thesis by linarith
qed


lemma rnd_0 [simp]: "rnd 0 = 0"
  by (simp add: rnd_def)

lemma rnd_eqI:
  assumes "2 powi e \<le> \<bar>x\<bar>" "\<bar>x\<bar> < 2 powi (e + 1)"
  shows "rnd x = of_int (round_even (x / 2 powi (e - 52))) * 2 powi (e - 52)"
proof -
  have "x \<noteq> 0"
  proof
    assume "x = 0"
    with assms(1) have "(2::rat) powi e \<le> 0" by simp
    moreover have "(0::rat) < 2 powi e" by simp
    ultimately show False by linarith
  qed
  moreover have "float_exp x = e" using assms by (rule float_exp_unique)
  ultimately show ?thesis by (simp add: rnd_def Let_def)
qed

lemma rnd_representable:
  assumes "2 powi e \<le> \<bar>y\<bar>" "\<bar>y\<bar> < 2 powi (e + 1)" "y = of_int n * 2 powi (e - 52)"
  shows "rnd y = y"
proof -
  have q: "y / 2 powi (e - 52) = of_int n"
    by (simp add: assms(3))
  have "rnd y = of_int (round_even (y / 2 powi (e - 52))) * 2 powi (e - 52)"
    using assms(1,2) by (rule rnd_eqI)
  also have "\<dots> = of_int n * 2 powi (e - 52)"
    by (simp only: q round_even_of_int)
  finally show ?thesis
    unfolding assms(3) [symmetric] .
qed

lemma rnd_error: "\<bar>rnd x - x\<bar> \<le> \<bar>x\<bar> / 2 ^ 53"
proof (cases "x = 0")
  case True
  then show ?thesis by simp
next
  case False
  define e where "e = float_exp x"
  define ulp where "ulp = (2::rat) powi (e - 52)"
  have ulp: "0 < ulp" by (simp add: ulp_def)
  have lo: "2 powi e \<le> \<bar>x\<bar>" unfolding e_def using False by (rule float_exp_bounds)
  have r: "rnd x = of_int (round_even (x / ulp)) * ulp"
    using False by (simp add: rnd_def Let_def e_def ulp_def)
  have "rnd x - x = (of_int (round_even (x / ulp)) - x / ulp) * ulp"
    using ulp by (simp add: r algebra_simps)
  then have "\<bar>rnd x - x\<bar> = \<bar>of_int (round_even (x / ulp)) - x / ulp\<bar> * ulp"
    using ulp by (simp add: abs_mult)
  also have "\<dots> \<le> 1 / 2 * ulp"
    using round_even_error [of "x / ulp"] ulp by (intro mult_right_mono) auto
  also have "\<dots> = 2 powi e / 2 ^ 53"
  proof -
    have "(2::rat) powi (e + - 52) = 2 powi e * 2 powi (- 52)"
      by (rule power_int_add) simp
    then show ?thesis
      by (simp add: ulp_def power_int_minus)
  qed
  also have "\<dots> \<le> \<bar>x\<bar> / 2 ^ 53"
    using lo by (intro divide_right_mono) auto
  finally show ?thesis .
qed

lemma rnd_nonneg: "0 \<le> x \<Longrightarrow> 0 \<le> rnd x"
proof (cases "x = 0")
  case True
  then show ?thesis by simp
next
  case False
  assume "0 \<le> x"
  define ulp where "ulp = (2::rat) powi (float_exp x - 52)"
  have ulp: "0 < ulp" by (simp add: ulp_def)
  have "of_int 0 \<le> x / ulp" using \<open>0 \<le> x\<close> ulp by simp
  then have "0 \<le> round_even (x / ulp)" by (rule round_even_ge)
  then show ?thesis
    using False ulp by (simp add: rnd_def Let_def ulp_def)
qed

lemma rnd_ge_minus_one: "- 1 \<le> x \<Longrightarrow> - 1 \<le> rnd x"
proof (cases "0 \<le> x")
  case True
  then have "0 \<le> rnd x" by (rule rnd_nonneg)
  then show ?thesis by linarith
next
  case False
  assume x: "- 1 \<le> x"
  from False have nz: "x \<noteq> 0" by auto
  define e where "e = float_exp x"
  define ulp where "ulp = (2::rat) powi (e - 52)"
  have ulp: "0 < ulp" by (simp add: ulp_def)
  have lo: "2 powi e \<le> \<bar>x\<bar>" unfolding e_def using nz by (rule float_exp_bounds)
  have "\<bar>x\<bar> \<le> 1" using x False by linarith
  with lo have "(2::rat) powi e \<le> 1" by linarith
  have e: "e \<le> 0"
  proof (rule ccontr)
    assume "\<not> e \<le> 0"
    then have "1 \<le> e" by simp
    from power_int_increasing [OF this, of "2::rat"] have "(2::rat) \<le> 2 powi e" by simp
    with \<open>(2::rat) powi e \<le> 1\<close> show False by linarith
  qed
  define N :: int where "N = 2 ^ nat (52 - e)"
  have N: "(of_int N :: rat) = 2 powi (52 - e)"
    using e by (simp add: N_def power_int_nonneg_exp)
  have inv: "ulp * 2 powi (52 - e) = 1"
    by (simp add: ulp_def flip: power_int_add)
  have q: "x / ulp = x * 2 powi (52 - e)"
    using inv ulp by (simp add: field_simps)
  have "of_int (- N) \<le> x / ulp"
  proof -
    have "- 1 * 2 powi (52 - e) \<le> x * (2::rat) powi (52 - e)"
      using x by (intro mult_right_mono) auto
    then show ?thesis by (simp add: q N)
  qed
  then have "- N \<le> round_even (x / ulp)" by (rule round_even_ge)
  then have "of_int (- N) * ulp \<le> of_int (round_even (x / ulp)) * ulp"
    using ulp by (intro mult_right_mono) auto
  moreover have "of_int (- N) * ulp = - 1"
    using inv by (simp add: N mult.commute)
  moreover have "rnd x = of_int (round_even (x / ulp)) * ulp"
    using nz by (simp add: rnd_def Let_def e_def ulp_def)
  ultimately show ?thesis by simp
qed

lemma rnd_idem [simp]: "rnd (rnd x) = rnd x"
proof (cases "x = 0")
  case True
  then show ?thesis by simp
next
  case False
  define e where "e = float_exp x"
  define ulp where "ulp = (2::rat) powi (e - 52)"
  define n where "n = round_even (x / ulp)"
  have ulp: "0 < ulp" by (simp add: ulp_def)
  have lo: "2 powi e \<le> \<bar>x\<bar>" and hi: "\<bar>x\<bar> < 2 powi (e + 1)"
    unfolding e_def using False by (rule float_exp_bounds)+
  have r: "rnd x = of_int n * ulp"
    using False by (simp add: rnd_def Let_def e_def ulp_def n_def)
  have p52: "2 powi e = 2 ^ 52 * ulp"
  proof -
    have "(2::rat) powi (52 + (e - 52)) = 2 powi 52 * 2 powi (e - 52)"
      by (rule power_int_add) simp
    then show ?thesis by (simp add: ulp_def)
  qed
  have p53: "2 powi (e + 1) = 2 ^ 53 * ulp"
  proof -
    have "(2::rat) powi (53 + (e - 52)) = 2 powi 53 * 2 powi (e - 52)"
      by (rule power_int_add) simp
    then show ?thesis by (simp add: ulp_def add.commute)
  qed
  have absq: "\<bar>x / ulp\<bar> = \<bar>x\<bar> / ulp" using ulp by simp
  have qlo: "2 ^ 52 \<le> \<bar>x / ulp\<bar>"
    using lo ulp unfolding p52 absq by (simp add: field_simps)
  have qhi: "\<bar>x / ulp\<bar> < 2 ^ 53"
    using hi ulp unfolding p53 absq by (simp add: field_simps)
  have nb: "2 ^ 52 \<le> \<bar>n\<bar> \<and> \<bar>n\<bar> \<le> 2 ^ 53"
  proof (cases "0 \<le> x / ulp")
    case True
    with qlo qhi have "of_int (2 ^ 52) \<le> x / ulp" "x / ulp \<le> of_int (2 ^ 53)" by auto
    then have "2 ^ 52 \<le> n" "n \<le> 2 ^ 53"
      unfolding n_def using round_even_ge round_even_le by blast+
    then show ?thesis by auto
  next
    case False
    with qlo qhi have "x / ulp \<le> of_int (- (2 ^ 52))" "of_int (- (2 ^ 53)) \<le> x / ulp" by auto
    then have "n \<le> - (2 ^ 52)" "- (2 ^ 53) \<le> n"
      unfolding n_def using round_even_ge round_even_le by blast+
    then show ?thesis by auto
  qed
  have absr: "\<bar>rnd x\<bar> = of_int \<bar>n\<bar> * ulp"
    using ulp by (simp add: r abs_mult)
  show ?thesis
  proof (cases "\<bar>n\<bar> = 2 ^ 53")
    case False
    with nb have lt: "\<bar>n\<bar> < 2 ^ 53" by linarith
    have 1: "2 powi e \<le> \<bar>rnd x\<bar>"
    proof -
      have "(of_int (2 ^ 52) :: rat) \<le> of_int \<bar>n\<bar>" using nb by (simp only: of_int_le_iff)
      then have "2 ^ 52 * ulp \<le> of_int \<bar>n\<bar> * ulp"
        using ulp by (intro mult_right_mono) auto
      then show ?thesis by (simp only: p52 absr)
    qed
    have 2: "\<bar>rnd x\<bar> < 2 powi (e + 1)"
    proof -
      have "(of_int \<bar>n\<bar> :: rat) < of_int (2 ^ 53)" using lt by (simp only: of_int_less_iff)
      then have "of_int \<bar>n\<bar> * ulp < 2 ^ 53 * ulp"
        using ulp by (intro mult_strict_right_mono) auto
      then show ?thesis by (simp only: p53 absr)
    qed
    show ?thesis
      by (rule rnd_representable [OF 1 2, of n]) (simp add: r ulp_def)
  next
    case True
    have 1: "2 powi (e + 1) \<le> \<bar>rnd x\<bar>"
      by (simp add: absr True p53)
    have 2: "\<bar>rnd x\<bar> < 2 powi (e + 1 + 1)"
    proof -
      have "(2::rat) powi (e + 1 + 1) = 2 * 2 powi (e + 1)"
        by (simp add: power_int_add)
      then show ?thesis using ulp by (simp add: absr True p53)
    qed
    have "n = 2 ^ 53 \<or> n = - (2 ^ 53)" using True by linarith
    then have ev: "n = 2 * (n div 2)" by auto
    have "rnd x = of_int (n div 2) * 2 powi (e + 1 - 52)"
    proof -
      have "(2::rat) powi (e + 1 - 52) = 2 * ulp"
        by (simp add: ulp_def power_int_add power_int_diff)
      moreover have "(of_int n :: rat) = 2 * of_int (n div 2)"
        using ev by (metis of_int_mult of_int_numeral)
      ultimately show ?thesis by (simp add: r)
    qed
    then show ?thesis
      by (rule rnd_representable [OF 1 2])
  qed
qed

lemma rnd_of_int: "\<bar>n\<bar> \<le> 2 ^ 53 \<Longrightarrow> rnd (of_int n) = of_int n"
proof (cases "n = 0")
  case True
  then show ?thesis by simp
next
  case False
  assume n: "\<bar>n\<bar> \<le> 2 ^ 53"
  define e where "e = bitlen \<bar>n\<bar> - 1"
  have pos: "0 < \<bar>n\<bar>" using False by simp
  have e0: "0 \<le> e" using pos by (simp add: e_def bitlen_alt_def)
  from bitlen_bounds [OF pos] have b1: "2 ^ nat e \<le> \<bar>n\<bar>" and b2: "\<bar>n\<bar> < 2 ^ nat (e + 1)"
    by (simp_all add: e_def)
  have 1: "2 powi e \<le> \<bar>of_int n :: rat\<bar>"
  proof -
    have "(of_int (2 ^ nat e) :: rat) \<le> of_int \<bar>n\<bar>" using b1 by (simp only: of_int_le_iff)
    then show ?thesis using e0 by (simp add: power_int_nonneg_exp)
  qed
  have 2: "\<bar>of_int n :: rat\<bar> < 2 powi (e + 1)"
  proof -
    have "(of_int \<bar>n\<bar> :: rat) < of_int (2 ^ nat (e + 1))" using b2 by (simp only: of_int_less_iff)
    then show ?thesis using e0 by (simp add: power_int_nonneg_exp)
  qed
  show ?thesis
  proof (cases "e \<le> 52")
    case True
    have "(of_int n :: rat) = of_int (n * 2 ^ nat (52 - e)) * 2 powi (e - 52)"
    proof -
      have "(of_int (2 ^ nat (52 - e)) :: rat) = 2 powi (52 - e)"
        using True by (simp add: power_int_nonneg_exp)
      moreover have "(2::rat) powi (52 - e) * 2 powi (e - 52) = 1"
        by (simp flip: power_int_add)
      ultimately show ?thesis by (simp add: mult.assoc)
    qed
    then show ?thesis by (rule rnd_representable [OF 1 2])
  next
    case False
    then have "53 \<le> e" by simp
    have "(2::int) ^ nat e \<le> 2 ^ 53" using b1 n by linarith
    then have "nat e \<le> 53"
      by (rule power_le_imp_le_exp [rotated]) simp
    with \<open>53 \<le> e\<close> have e53: "e = 53" by linarith
    have eq: "\<bar>n\<bar> = 2 ^ 53" using b1 n by (simp add: e53)
    have "(of_int n :: rat) = of_int (n div 2) * 2 powi (e - 52)"
    proof -
      have "n = 2 ^ 53 \<or> n = - (2 ^ 53)" using eq by linarith
      then have "n = 2 * (n div 2)" by auto
      then have "(of_int n :: rat) = 2 * of_int (n div 2)"
        by (metis of_int_mult of_int_numeral)
      then show ?thesis by (simp add: e53)
    qed
    then show ?thesis by (rule rnd_representable [OF 1 2])
  qed
qed

section \<open>Properties of the rate limiter\<close>

lemma rnd_upper: "rnd x \<le> x + \<bar>x\<bar> / 2 ^ 53"
  using rnd_error [of x] by linarith

lemma rnd_upper_nonneg: "0 \<le> x \<Longrightarrow> rnd x \<le> x * (1 + 1 / 2 ^ 53)"
  using rnd_upper [of x] by (simp add: algebra_simps)

lemma refill_amount_bounds:
  assumes "0 \<le> m" "0 < p" "0 \<le> d"
  shows "0 \<le> js_mul (js_div d 1000) (js_div m p)"
    and "js_mul (js_div d 1000) (js_div m p) \<le> d * (m / (1000 * p) * (1 + 1 / 2 ^ 53) ^ 3)"
proof -
  define u1 :: rat where "u1 = 1 + 1 / 2 ^ 53"
  have u1: "0 \<le> u1" by (simp add: u1_def)
  define a where "a = rnd (d / 1000)"
  define R where "R = rnd (m / p)"
  have a0: "0 \<le> a" unfolding a_def using assms(3) by (intro rnd_nonneg) simp
  have R0: "0 \<le> R" unfolding R_def using assms(1,2) by (intro rnd_nonneg) simp
  have a1: "a \<le> d / 1000 * u1"
    unfolding a_def u1_def using assms(3) by (intro rnd_upper_nonneg) simp
  have R1: "R \<le> m / p * u1"
    unfolding R_def u1_def using assms(1,2) by (intro rnd_upper_nonneg) simp
  have aR0: "0 \<le> a * R" using a0 R0 by simp
  show "0 \<le> js_mul (js_div d 1000) (js_div m p)"
    unfolding js_mul_def js_div_def a_def [symmetric] R_def [symmetric]
    using aR0 by (rule rnd_nonneg)
  have "rnd (a * R) \<le> a * R * u1"
    unfolding u1_def using aR0 by (rule rnd_upper_nonneg)
  also have "a * R \<le> (d / 1000 * u1) * (m / p * u1)"
    using a1 R1 a0 R0 by (intro mult_mono) auto
  finally have "rnd (a * R) \<le> (d / 1000 * u1) * (m / p * u1) * u1"
    using u1 by (simp add: mult_right_mono)
  also have "\<dots> = d * (m / (1000 * p) * u1 ^ 3)"
    by (simp add: power3_eq_cube)
  finally show "js_mul (js_div d 1000) (js_div m p) \<le> d * (m / (1000 * p) * (1 + 1 / 2 ^ 53) ^ 3)"
    unfolding js_mul_def js_div_def a_def [symmetric] R_def [symmetric] u1_def .
qed


lemma leak_bounds: "bucket_ok r \<Longrightarrow> 0 \<le> leak r \<and> leak r \<le> 1"
  by (simp add: bucket_ok_def leak_def)

lemma inflow_nonneg: "bucket_ok r \<Longrightarrow> 0 \<le> inflow r"
  by (simp add: bucket_ok_def leak_def inflow_def)

lemma refillTokens_params [simp]:
  "maxRequests (refillTokens t r) = maxRequests r"
  "perSeconds (refillTokens t r) = perSeconds r"
  "lastRefilled (refillTokens t r) = t"
  by (simp_all add: refillTokens_def Let_def)

lemma refillTokens_same_instant:
  assumes "bucket_ok r"
  shows "tokens (refillTokens (lastRefilled r) r) = tokens r"
proof -
  have "js_mul (js_div 0 1000) (js_div (maxRequests r) (perSeconds r)) = 0"
    by (simp add: js_mul_def js_div_def)
  then have "tokens (refillTokens (lastRefilled r) r) = min (maxRequests r) (rnd (tokens r))"
    by (simp add: refillTokens_def Let_def js_add_def)
  with assms show ?thesis
    by (simp add: bucket_ok_def)
qed

lemma refillTokens_step:
  assumes ok: "bucket_ok r" and le: "lastRefilled r \<le> t"
  shows "bucket_ok (refillTokens t r)"
    and "tokens (refillTokens t r) \<le> tokens r + of_int (t - lastRefilled r) * inflow r"
proof -
  define m where "m = maxRequests r"
  define p where "p = perSeconds r"
  define d :: rat where "d = of_int (t - lastRefilled r)"
  define A where "A = js_mul (js_div d 1000) (js_div m p)"
  define s where "s = tokens r + A"
  from ok have m: "1 \<le> m" "m \<le> 2 ^ 53" "rnd m = m" and p: "0 < p"
    and tk: "rnd (tokens r) = tokens r" "- 1 \<le> tokens r" "tokens r \<le> m"
    by (simp_all add: bucket_ok_def m_def p_def)
  have d0: "0 \<le> d" using le by (simp add: d_def)
  have A0: "0 \<le> A"
    unfolding A_def using m(1) p d0 by (intro refill_amount_bounds(1)) auto
  have A1: "A \<le> d * (m / (1000 * p) * (1 + 1 / 2 ^ 53) ^ 3)"
    unfolding A_def using m(1) p d0 by (intro refill_amount_bounds(2)) auto
  have tok: "tokens (refillTokens t r) = min m (rnd s)"
    by (simp add: refillTokens_def Let_def js_add_def s_def A_def d_def m_def p_def)
  have s1: "- 1 \<le> s" using tk(2) A0 by (simp add: s_def)
  then have rs1: "- 1 \<le> rnd s" by (rule rnd_ge_minus_one)
  have fx: "rnd (min m (rnd s)) = min m (rnd s)"
    using m(3) by (simp add: min_def)
  show "bucket_ok (refillTokens t r)"
    using ok rs1 m(1) fx unfolding bucket_ok_def refillTokens_params tok m_def [symmetric]
    by simp
  show "tokens (refillTokens t r) \<le> tokens r + of_int (t - lastRefilled r) * inflow r"
  proof (cases "t = lastRefilled r")
    case True
    then show ?thesis
      using refillTokens_same_instant [OF ok] by simp
  next
    case False
    with le have "1 \<le> t - lastRefilled r" by linarith
    then have d1: "1 \<le> d" unfolding d_def by (metis of_int_1 of_int_le_iff)
    have cap: "min m (rnd s) \<le> s + leak r"
    proof (cases "s < m")
      case True
      with s1 m(1) have "\<bar>s\<bar> \<le> m" by linarith
      then have "\<bar>s\<bar> / 2 ^ 53 \<le> m / 2 ^ 53"
        by (intro divide_right_mono) auto
      with rnd_upper [of s] have "rnd s \<le> s + leak r"
        by (simp add: leak_def m_def)
      then show ?thesis by simp
    next
      case False
      moreover have "0 \<le> leak r" using ok leak_bounds by blast
      ultimately show ?thesis by simp
    qed
    have "leak r \<le> d * leak r"
      using d1 ok leak_bounds [of r] by (simp add: mult_le_cancel_right1)
    with cap A1 have "min m (rnd s) \<le> tokens r + d * (m / (1000 * p) * (1 + 1 / 2 ^ 53) ^ 3) + d * leak r"
      by (simp add: s_def)
    also have "\<dots> = tokens r + d * inflow r"
      by (simp add: inflow_def m_def p_def algebra_simps)
    finally show ?thesis by (simp add: tok d_def)
  qed
qed

lemma attempt_params [simp]:
  "maxRequests (snd (attempt t r)) = maxRequests r"
  "perSeconds (snd (attempt t r)) = perSeconds r"
  "lastRefilled (snd (attempt t r)) = t"
  by (simp_all add: attempt_def Let_def)

lemma leak_attempt [simp]: "leak (snd (attempt t r)) = leak r"
  by (simp add: leak_def)

lemma inflow_attempt [simp]: "inflow (snd (attempt t r)) = inflow r"
  by (simp add: inflow_def)

lemma attempt_step:
  assumes ok: "bucket_ok r" and le: "lastRefilled r \<le> t"
  shows "bucket_ok (snd (attempt t r))"
    and "tokens (snd (attempt t r)) + (if fst (attempt t r) then 1 - leak r else 0)
           \<le> tokens r + of_int (t - lastRefilled r) * inflow r"
    and "tokens (snd (attempt t r)) + (if fst (attempt t r) then 1 - leak r else 0)
           \<le> maxRequests r"
proof -
  define r1 where "r1 = refillTokens t r"
  have ok1: "bucket_ok r1" unfolding r1_def using ok le by (rule refillTokens_step)
  have up1: "tokens r1 \<le> tokens r + of_int (t - lastRefilled r) * inflow r"
    unfolding r1_def using ok le by (rule refillTokens_step)
  from ok1 have m: "1 \<le> maxRequests r" "maxRequests r \<le> 2 ^ 53"
    and tk: "tokens r1 \<le> maxRequests r"
    by (simp_all add: bucket_ok_def r1_def)
  have lk: "0 \<le> leak r" "leak r \<le> 1" using ok leak_bounds by blast+
  have "bucket_ok (snd (attempt t r))
    \<and> tokens (snd (attempt t r)) + (if fst (attempt t r) then 1 - leak r else 0)
           \<le> tokens r + of_int (t - lastRefilled r) * inflow r
    \<and> tokens (snd (attempt t r)) + (if fst (attempt t r) then 1 - leak r else 0)
           \<le> maxRequests r"
  proof (cases "0 < tokens r1")
    case False
    then have a: "attempt t r = (False, r1)"
      by (simp add: attempt_def r1_def Let_def)
    show ?thesis
      using ok1 up1 tk by (simp add: a)
  next
    case True
    define z where "z = tokens r1 - 1"
    have a: "attempt t r = (True, r1\<lparr> tokens := rnd z \<rparr>)"
      using True by (simp add: attempt_def r1_def Let_def js_sub_def z_def)
    have z1: "- 1 \<le> z" using True by (simp add: z_def)
    then have lo: "- 1 \<le> rnd z" by (rule rnd_ge_minus_one)
    have "\<bar>z\<bar> \<le> maxRequests r" using True tk m(1) by (simp add: z_def abs_le_iff)
    then have "\<bar>z\<bar> / 2 ^ 53 \<le> leak r"
      unfolding leak_def by (intro divide_right_mono) auto
    with rnd_upper [of z] have up: "rnd z \<le> z + leak r" by linarith
    have top: "rnd z \<le> maxRequests r"
      using up tk lk by (simp add: z_def)
    have "bucket_ok (snd (attempt t r))"
      using ok1 lo top by (simp add: a bucket_ok_def r1_def)
    moreover have "tokens (snd (attempt t r)) + (if fst (attempt t r) then 1 - leak r else 0)
           \<le> tokens r + of_int (t - lastRefilled r) * inflow r"
      using up up1 by (simp add: a z_def)
    moreover have "tokens (snd (attempt t r)) + (if fst (attempt t r) then 1 - leak r else 0)
           \<le> maxRequests r"
      using up tk by (simp add: a z_def)
    ultimately show ?thesis by blast
  qed
  then show "bucket_ok (snd (attempt t r))"
    and "tokens (snd (attempt t r)) + (if fst (attempt t r) then 1 - leak r else 0)
           \<le> tokens r + of_int (t - lastRefilled r) * inflow r"
    and "tokens (snd (attempt t r)) + (if fst (attempt t r) then 1 - leak r else 0)
           \<le> maxRequests r"
    by blast+
qed


lemma times_attempts: "map fst (attempts ts r) = ts"
  by (induction ts arbitrary: r) simp_all

lemma no_grants_after:
  assumes "\<forall>t \<in> set ts. e < t"
  shows "filter (\<lambda>(t, g). g \<and> P t \<and> t \<le> e) (attempts ts r) = []"
proof -
  have "\<forall>x \<in> set (attempts ts r). fst x \<in> set ts"
    using times_attempts [of ts r] by (metis image_eqI list.set_map)
  with assms show ?thesis
    by (force simp: filter_empty_conv)
qed

lemma window_filter_from:
  assumes "\<forall>t \<in> set ts. a \<le> t"
  shows "filter (\<lambda>(t, g). g \<and> a \<le> t \<and> t \<le> e) (attempts ts r)
       = filter (\<lambda>(t, g). g \<and> t \<le> e) (attempts ts r)"
proof -
  have "\<forall>x \<in> set (attempts ts r). fst x \<in> set ts"
    using times_attempts [of ts r] by (metis image_eqI list.set_map)
  with assms show ?thesis
    by (intro filter_cong) auto
qed

lemma grants_upto_bound:
  assumes "bucket_ok r" "sorted (lastRefilled r # ts)" "lastRefilled r \<le> e"
  shows "of_nat (length (filter (\<lambda>(t, g). g \<and> t \<le> e) (attempts ts r))) * (1 - leak r)
           \<le> tokens r + 1 + of_int (e - lastRefilled r) * inflow r"
  using assms
proof (induction ts arbitrary: r)
  case Nil
  have "0 \<le> of_int (e - lastRefilled r) * inflow r"
    using Nil(1,3) inflow_nonneg by simp
  moreover have "- 1 \<le> tokens r" using Nil(1) by (simp add: bucket_ok_def)
  ultimately show ?case by simp
next
  case (Cons t ts)
  let ?r' = "snd (attempt t r)"
  let ?g = "if fst (attempt t r) then 1 else (0::rat)"
  have le: "lastRefilled r \<le> t" and srt: "sorted (t # ts)"
    using Cons.prems by auto
  note st = attempt_step [OF Cons.prems(1) le]
  have lk: "0 \<le> leak r" "leak r \<le> 1" using Cons.prems(1) leak_bounds by blast+
  have fl: "0 \<le> inflow r" using Cons.prems(1) by (rule inflow_nonneg)
  show ?case
  proof (cases "t \<le> e")
    case True
    have IH: "of_nat (length (filter (\<lambda>(t, g). g \<and> t \<le> e) (attempts ts ?r'))) * (1 - leak r)
           \<le> tokens ?r' + 1 + of_int (e - t) * inflow r"
      using Cons.IH [of ?r'] st(1) srt True by simp
    have split: "of_int (t - lastRefilled r) * inflow r + of_int (e - t) * inflow r
        = of_int (e - lastRefilled r) * inflow r"
      by (simp add: algebra_simps)
    have "of_nat (length (filter (\<lambda>(t, g). g \<and> t \<le> e) (attempts (t # ts) r))) * (1 - leak r)
        = ?g * (1 - leak r)
          + of_nat (length (filter (\<lambda>(t, g). g \<and> t \<le> e) (attempts ts ?r'))) * (1 - leak r)"
      using True by (simp add: algebra_simps)
    also have "\<dots> \<le> ?g * (1 - leak r) + (tokens ?r' + 1 + of_int (e - t) * inflow r)"
      using IH by simp
    also have "\<dots> \<le> tokens r + of_int (t - lastRefilled r) * inflow r + 1 + of_int (e - t) * inflow r"
      using st(2) by (simp split: if_splits)
    also have "\<dots> = tokens r + 1 + of_int (e - lastRefilled r) * inflow r"
      using split by simp
    finally show ?thesis .
  next
    case False
    then have "\<forall>x \<in> set (t # ts). e < x"
      using srt by auto
    then have "filter (\<lambda>(t, g). g \<and> True \<and> t \<le> e) (attempts (t # ts) r) = []"
      by (rule no_grants_after)
    then have "filter (\<lambda>(t, g). g \<and> t \<le> e) (attempts (t # ts) r) = []"
      by simp
    then have "of_nat (length (filter (\<lambda>(t, g). g \<and> t \<le> e) (attempts (t # ts) r))) * (1 - leak r) = 0"
      by (simp only: list.size of_nat_0 mult_zero_left)
    moreover have "0 \<le> of_int (e - lastRefilled r) * inflow r"
      using Cons.prems(3) fl by simp
    moreover have "- 1 \<le> tokens r" using Cons.prems(1) by (simp add: bucket_ok_def)
    ultimately show ?thesis by linarith
  qed
qed

lemma grants_in_window_bound:
  assumes "bucket_ok r" "sorted (lastRefilled r # ts)" "0 \<le> w"
  shows "of_nat (grants_in_window (attempts ts r) a w) * (1 - leak r)
           \<le> maxRequests r + 1 + of_int w * inflow r"
  using assms(1,2)
proof (induction ts arbitrary: r)
  case Nil
  have "0 \<le> of_int w * inflow r"
    using Nil(1) assms(3) inflow_nonneg by simp
  moreover have "1 \<le> maxRequests r" using Nil(1) by (simp add: bucket_ok_def)
  moreover have "of_nat (grants_in_window (attempts [] r) a w) * (1 - leak r) = 0"
    by (simp add: grants_in_window_def)
  ultimately show ?case by linarith
next
  case (Cons t ts)
  let ?r' = "snd (attempt t r)"
  let ?g = "if fst (attempt t r) then 1 else (0::rat)"
  have le: "lastRefilled r \<le> t" and srt: "sorted (t # ts)"
    using Cons.prems by auto
  note st = attempt_step [OF Cons.prems(1) le]
  have fl: "0 \<le> inflow r" using Cons.prems(1) by (rule inflow_nonneg)
  have m1: "1 \<le> maxRequests r" using Cons.prems(1) by (simp add: bucket_ok_def)
  have fw: "0 \<le> of_int w * inflow r" using fl assms(3) by simp
  show ?case
  proof (cases "a \<le> t")
    case False
    then have "grants_in_window (attempts (t # ts) r) a w = grants_in_window (attempts ts ?r') a w"
      by (simp add: grants_in_window_def)
    moreover have "of_nat (grants_in_window (attempts ts ?r') a w) * (1 - leak ?r')
           \<le> maxRequests ?r' + 1 + of_int w * inflow ?r'"
      using st(1) srt by (intro Cons.IH) auto
    ultimately show ?thesis by simp
  next
    case True
    show ?thesis
    proof (cases "t \<le> a + w")
      case inside: True
      have all: "\<forall>x \<in> set ts. a \<le> x" using srt True by auto
      have rest: "of_nat (length (filter (\<lambda>(t, g). g \<and> t \<le> a + w) (attempts ts ?r'))) * (1 - leak r)
           \<le> tokens ?r' + 1 + of_int (a + w - t) * inflow r"
        using grants_upto_bound [of ?r' ts "a + w"] st(1) srt inside by simp
      have mono: "of_int (a + w - t) * inflow r \<le> of_int w * inflow r"
        using True fl by (intro mult_right_mono) auto
      have "of_nat (grants_in_window (attempts (t # ts) r) a w) * (1 - leak r)
          = ?g * (1 - leak r)
            + of_nat (length (filter (\<lambda>(t, g). g \<and> a \<le> t \<and> t \<le> a + w) (attempts ts ?r'))) * (1 - leak r)"
        using True inside by (simp add: grants_in_window_def algebra_simps)
      also have "\<dots> = ?g * (1 - leak r)
            + of_nat (length (filter (\<lambda>(t, g). g \<and> t \<le> a + w) (attempts ts ?r'))) * (1 - leak r)"
        using window_filter_from [OF all] by simp
      also have "\<dots> \<le> ?g * (1 - leak r) + (tokens ?r' + 1 + of_int (a + w - t) * inflow r)"
        using rest by simp
      also have "\<dots> \<le> maxRequests r + 1 + of_int w * inflow r"
        using st(3) mono by (simp split: if_splits)
      finally show ?thesis .
    next
      case False
      then have "\<forall>x \<in> set (t # ts). a + w < x"
        using srt by auto
      then have "filter (\<lambda>(t, g). g \<and> a \<le> t \<and> t \<le> a + w) (attempts (t # ts) r) = []"
        by (rule no_grants_after)
      then have "of_nat (grants_in_window (attempts (t # ts) r) a w) * (1 - leak r) = 0"
        by (simp only: grants_in_window_def list.size of_nat_0 mult_zero_left)
      with fw m1 show ?thesis by linarith
    qed
  qed
qed


lemma newRateLimiter_ok:
  assumes "1 \<le> k" "k \<le> 1000000" "0 < p"
  shows "bucket_ok (newRateLimiter (of_nat k) p t0)"
proof -
  have "\<bar>int k\<bar> \<le> 2 ^ 53" using assms(2) by simp
  then have "rnd (of_int (int k)) = of_int (int k)" by (rule rnd_of_int)
  then have fx: "rnd (of_nat k) = of_nat k" by simp
  have "(of_nat k :: rat) \<le> of_nat 1000000" using assms(2) by (simp only: of_nat_le_iff)
  then have "(of_nat k :: rat) \<le> 2 ^ 53" by simp
  moreover have "(1::rat) \<le> of_nat k" using assms(1) by simp
  ultimately show ?thesis
    using assms(3) fx by (simp add: bucket_ok_def newRateLimiter_def)
qed

lemma attempts_step:
  "attempt now r = (g, r') \<Longrightarrow> attempts (now # clock) r = (now, g) # attempts clock r'"
  by simp

lemma attempt_granted:
  assumes "js_add tk (js_mul (js_div (of_int (now - l)) 1000) (js_div m p)) = s"
    and "s \<le> m" "0 < s" "js_sub s 1 = tk'"
  shows "attempt now \<lparr> maxRequests = m, perSeconds = p, tokens = tk, lastRefilled = l \<rparr>
       = (True, \<lparr> maxRequests = m, perSeconds = p, tokens = tk', lastRefilled = now \<rparr>)"
  using assms by (simp add: attempt_def refillTokens_def Let_def)

lemma drain_bucket:
  assumes "j \<le> k" "k \<le> 1000000"
  shows "attempts (replicate j t0 @ clock)
           \<lparr> maxRequests = of_nat k, perSeconds = p, tokens = of_nat j, lastRefilled = t0 \<rparr>
       = replicate j (t0, True)
         @ attempts clock \<lparr> maxRequests = of_nat k, perSeconds = p, tokens = 0, lastRefilled = t0 \<rparr>"
  using assms(1)
proof (induction j)
  case 0
  then show ?case by simp
next
  case (Suc j)
  have "\<bar>int (Suc j)\<bar> \<le> 2 ^ 53" "\<bar>int j\<bar> \<le> 2 ^ 53" using Suc.prems assms(2) by simp_all
  then have "rnd (of_int (int (Suc j))) = of_int (int (Suc j))" "rnd (of_int (int j)) = of_int (int j)"
    using rnd_of_int by blast+
  then have fx: "rnd (1 + of_nat j) = 1 + of_nat j" "rnd (of_nat j) = of_nat j"
    by (simp_all add: add.commute)
  have le: "1 + (of_nat j :: rat) \<le> of_nat k"
  proof -
    have "(of_nat (Suc j) :: rat) \<le> of_nat k" using Suc.prems by (simp only: of_nat_le_iff)
    then show ?thesis by simp
  qed
  have "attempt t0 \<lparr> maxRequests = of_nat k, perSeconds = p, tokens = of_nat (Suc j), lastRefilled = t0 \<rparr>
      = (True, \<lparr> maxRequests = of_nat k, perSeconds = p, tokens = of_nat j, lastRefilled = t0 \<rparr>)"
    by (rule attempt_granted [where s = "of_nat (Suc j)"])
       (use fx le in \<open>simp_all add: js_add_def js_mul_def js_div_def js_sub_def\<close>)
  from attempts_step [OF this] Suc.IH Suc.prems show ?case by simp
qed

lemma refill_8: "js_mul (js_div 8 1000) (js_div 20 1) = 5764607523034235 / 36028797018963968"
  by code_simp

lemma refill_50: "js_mul (js_div 50 1000) (js_div 20 1) = 1"
  by code_simp

lemma refill_42: "js_mul (js_div 42 1000) (js_div 20 1) = 3783023686991217 / 4503599627370496"
  by code_simp

lemma sum_8: "js_add 0 (5764607523034235 / 36028797018963968) = 5764607523034235 / 36028797018963968"
  by code_simp

lemma sub_8: "js_sub (5764607523034235 / 36028797018963968) 1 = - (7566047373982433 / 9007199254740992)"
  by code_simp

lemma sum_50: "js_add (- (7566047373982433 / 9007199254740992)) 1 = 1441151880758559 / 9007199254740992"
  by code_simp

lemma sub_50: "js_sub (1441151880758559 / 9007199254740992) 1 = - (7566047373982433 / 9007199254740992)"
  by code_simp

lemma sum_42: "js_add (- (7566047373982433 / 9007199254740992)) (3783023686991217 / 4503599627370496) = 1 / 9007199254740992"
  by code_simp

lemma sub_42: "js_sub (1 / 9007199254740992) 1 = - (9007199254740991 / 9007199254740992)"
  by code_simp


lemma pass_at_8:
  "attempt 8 \<lparr> maxRequests = 20, perSeconds = 1, tokens = 0, lastRefilled = 0 \<rparr>
     = (True, \<lparr> maxRequests = 20, perSeconds = 1, tokens = - (7566047373982433 / 9007199254740992), lastRefilled = 8 \<rparr>)"
  by (rule attempt_granted [where s = "5764607523034235 / 36028797018963968"]) (simp_all add: refill_8 sum_8 sub_8)

lemma pass_after_50:
  "now - l = 50 \<Longrightarrow>
   attempt now \<lparr> maxRequests = 20, perSeconds = 1, tokens = - (7566047373982433 / 9007199254740992), lastRefilled = l \<rparr>
     = (True, \<lparr> maxRequests = 20, perSeconds = 1, tokens = - (7566047373982433 / 9007199254740992), lastRefilled = now \<rparr>)"
  by (rule attempt_granted [where s = "1441151880758559 / 9007199254740992"]) (simp_all add: refill_50 sum_50 sub_50)

lemma pass_after_42:
  "now - l = 42 \<Longrightarrow>
   attempt now \<lparr> maxRequests = 20, perSeconds = 1, tokens = - (7566047373982433 / 9007199254740992), lastRefilled = l \<rparr>
     = (True, \<lparr> maxRequests = 20, perSeconds = 1, tokens = - (9007199254740991 / 9007199254740992), lastRefilled = now \<rparr>)"
  by (rule attempt_granted [where s = "1 / 9007199254740992"]) (simp_all add: refill_42 sum_42 sub_42)

lemma pass_at_50:
  "attempt 50 \<lparr> maxRequests = 20, perSeconds = 1, tokens = 0, lastRefilled = 0 \<rparr>
     = (True, \<lparr> maxRequests = 20, perSeconds = 1, tokens = 0, lastRefilled = 50 \<rparr>)"
proof -
  have "rnd (of_int 1) = of_int 1" by (rule rnd_of_int) simp
  then have "rnd 1 = 1" by simp
  then show ?thesis
    by (intro attempt_granted [where s = 1]) (simp_all add: refill_50 js_add_def js_sub_def)
qed

lemma drained_20:
  "attempts (replicate 20 0 @ clock) (newRateLimiter 20 1 0)
     = replicate 20 (0, True)
       @ attempts clock \<lparr> maxRequests = 20, perSeconds = 1, tokens = 0, lastRefilled = 0 \<rparr>"
  using drain_bucket [of 20 20 0 clock 1] by (simp add: newRateLimiter_def)

lemma burst_trace:
  "attempts (replicate 20 0 @ [50]) (newRateLimiter 20 1 0) = replicate 20 (0, True) @ [(50, True)]"
  unfolding drained_20
  by (simp add: pass_at_50)

lemma tight_trace:
  "attempts (replicate 20 0 @ [8, 58, 108, 158, 208, 258, 308, 358, 408, 458, 508, 558, 608, 658, 708, 758, 808, 858, 908, 958, 1000]) (newRateLimiter 20 1 0)
     = replicate 20 (0, True) @ [(8, True), (58, True), (108, True), (158, True), (208, True), (258, True), (308, True), (358, True), (408, True), (458, True), (508, True), (558, True), (608, True), (658, True), (708, True), (758, True), (808, True), (858, True), (908, True), (958, True), (1000, True)]"
  unfolding drained_20
  by (simp add: pass_at_8 pass_after_50 pass_after_42)

text \<open>
  A limiter of one request per second grants three passes within one second: the pass at
  64 ms finds 0.064 of a token and takes it, leaving -0.936, and the pass at 1000 ms
  finds the sum of -0.936 and 0.936 rounded to a positive number.
\<close>

lemma unit_bucket_trace:
  "attempts [0, 64, 1000] (newRateLimiter 1 1 0) = [(0, True), (64, True), (1000, True)]"
  by code_simp

text \<open>
  Claim C4, as stated, fails. With the limiter of the program (20 requests per 1 second)
  created at time 0, twenty passes at time 0 drain the full bucket, and a pass at 50 ms
  finds a whole token refilled since: 21 acquisitions lie within one window of 1000 ms.
\<close>

theorem token_bucket_burst_counterexample:
  "grants_in_window (attempts (replicate 20 0 @ [50]) (newRateLimiter 20 1 0)) 0 1000 = 21
   \<and> maxRequests (newRateLimiter 20 1 0) = 20"
  unfolding burst_trace by code_simp

text \<open>
  Claim C4, amended. For a limiter created with a whole-number capacity \<open>maxRequests\<close>
  from 1 to 1000000 and a period \<open>perSeconds\<close> from 0.000001 to 1000000 seconds (the
  program's limiter has 20 and 1), and for any sequence of passes at clock readings that
  never run backwards, the acquisitions whose readings lie in a window no longer than
  \<open>perSeconds\<close> number at most \<open>2 * maxRequests + 1\<close>: the full bucket, what the window
  refills, and one more that the test \<open>tokens > 0\<close> lets through on a fraction of a token.
  The bound is reached: 41 acquisitions of the program's limiter lie in one second.
\<close>

theorem window_grants_bound:
  assumes k: "1 \<le> k" "k \<le> 1000000"
    and p: "1 / 1000000 \<le> p" "p \<le> 1000000"
    and clock: "sorted (t0 # clock)"
    and w: "0 \<le> w" "of_int w \<le> 1000 * p"
  shows "grants_in_window (attempts clock (newRateLimiter (of_nat k) p t0)) a w \<le> 2 * k + 1"
proof (rule ccontr)
  define K :: rat where "K = of_nat k"
  define r where "r = newRateLimiter K p t0"
  define G where "G = grants_in_window (attempts clock r) a w"
  define u :: rat where "u = 1 / 2 ^ 53"
  define X where "X = K * K"
  define Y where "Y = p * K"
  assume "\<not> grants_in_window (attempts clock (newRateLimiter (of_nat k) p t0)) a w \<le> 2 * k + 1"
  then have "2 * k + 2 \<le> G" by (simp add: G_def r_def K_def)
  then have "(of_nat (2 * k + 2) :: rat) \<le> of_nat G" by (simp only: of_nat_le_iff)
  then have G: "2 * K + 2 \<le> of_nat G" by (simp add: K_def)
  have p0: "0 < p" using p(1) by linarith
  have K1: "1 \<le> K" using k(1) by (simp add: K_def)
  have "(of_nat k :: rat) \<le> of_nat 1000000" using k(2) by (simp only: of_nat_le_iff)
  then have K2: "K \<le> 1000000" by (simp add: K_def)
  have X: "X \<le> 1000000 * 1000000" unfolding X_def using K1 K2 by (intro mult_mono) auto
  have Y: "Y \<le> 1000000 * 1000000" unfolding Y_def using K1 K2 p0 p(2) by (intro mult_mono) auto
  have ok: "bucket_ok r" unfolding r_def K_def using k p0 by (rule newRateLimiter_ok)
  have srt: "sorted (lastRefilled r # clock)" using clock by (simp add: r_def newRateLimiter_def)
  have lk: "leak r = K * u" by (simp add: leak_def r_def newRateLimiter_def u_def)
  have fl: "inflow r = K / (1000 * p) * (1 + u) ^ 3 + K * u"
    by (simp add: inflow_def leak_def r_def newRateLimiter_def u_def)
  have main: "of_nat G * (1 - K * u) \<le> K + 1 + of_int w * (K / (1000 * p) * (1 + u) ^ 3 + K * u)"
    using grants_in_window_bound [OF ok srt w(1), of a]
    by (simp add: G_def lk fl) (simp add: r_def newRateLimiter_def)
  have c3: "(1 + u) ^ 3 \<le> 1 + 4 * u" by (simp add: u_def power3_eq_cube)
  have frac: "of_int w / (1000 * p) \<le> 1" using w(2) p0 by simp
  have w0: "(0::rat) \<le> of_int w" using w(1) by simp
  have "of_int w * (K / (1000 * p) * (1 + u) ^ 3) = of_int w / (1000 * p) * (K * (1 + u) ^ 3)"
    by simp
  also have "\<dots> \<le> 1 * (K * (1 + u) ^ 3)"
    using frac K1 by (intro mult_right_mono) (auto simp: u_def)
  also have "\<dots> \<le> K * (1 + 4 * u)"
    using c3 K1 by (simp add: mult_left_mono)
  finally have part1: "of_int w * (K / (1000 * p) * (1 + u) ^ 3) \<le> K + 4 * K * u"
    by (simp add: algebra_simps)
  have "of_int w * (K * u) \<le> (1000 * p) * (K * u)"
    using w(2) K1 by (intro mult_right_mono) (auto simp: u_def)
  then have part2: "of_int w * (K * u) \<le> 1000 * Y * u"
    by (simp add: Y_def algebra_simps)
  have rhs: "of_nat G * (1 - K * u) \<le> 2 * K + 1 + 4 * K * u + 1000 * Y * u"
    using main part1 part2 by (simp add: algebra_simps)
  have pos: "0 \<le> 1 - K * u" using K2 by (simp add: u_def)
  have "(2 * K + 2) * (1 - K * u) \<le> of_nat G * (1 - K * u)"
    using G pos by (rule mult_right_mono)
  then have lhs: "2 * K + 2 - 2 * X * u - 2 * K * u \<le> of_nat G * (1 - K * u)"
    by (simp add: X_def algebra_simps)
  from lhs rhs have "1 \<le> (2 * X + 6 * K + 1000 * Y) * u"
    by (simp add: algebra_simps)
  moreover have "(2 * X + 6 * K + 1000 * Y) * u < 1"
    using X Y K2 by (simp add: u_def)
  ultimately show False by linarith
qed

theorem window_grants_bound_witness:
  "(1::nat) \<le> 20 \<and> (20::nat) \<le> 1000000 \<and> 1 / 1000000 \<le> (1::rat) \<and> (1::rat) \<le> 1000000
   \<and> sorted ((0::int) # replicate 20 0 @ [8, 58, 108, 158, 208, 258, 308, 358, 408, 458, 508, 558, 608, 658, 708, 758, 808, 858, 908, 958, 1000])
   \<and> (0::int) \<le> 1000 \<and> of_int 1000 \<le> 1000 * (1::rat)
   \<and> grants_in_window (attempts (replicate 20 0 @ [8, 58, 108, 158, 208, 258, 308, 358, 408, 458, 508, 558, 608, 658, 708, 758, 808, 858, 908, 958, 1000]) (newRateLimiter 20 1 0)) 0 1000 = 41
   \<and> grants_in_window (attempts (replicate 20 0 @ [8, 58, 108, 158, 208, 258, 308, 358, 408, 458, 508, 558, 608, 658, 708, 758, 808, 858, 908, 958, 1000]) (newRateLimiter 20 1 0)) 0 1000 \<le> 2 * 20 + 1"
proof -
  have srt: "sorted ((0::int) # replicate 20 0 @ [8, 58, 108, 158, 208, 258, 308, 358, 408, 458, 508, 558, 608, 658, 708, 758, 808, 858, 908, 958, 1000])"
    by (simp add: sorted_append)
  have count: "grants_in_window (attempts (replicate 20 0 @ [8, 58, 108, 158, 208, 258, 308, 358, 408, 458, 508, 558, 608, 658, 708, 758, 808, 858, 908, 958, 1000]) (newRateLimiter 20 1 0)) 0 1000 = 41"
    unfolding tight_trace by code_simp
  from window_grants_bound [of 20 1 0 "replicate 20 0 @ [8, 58, 108, 158, 208, 258, 308, 358, 408, 458, 508, 558, 608, 658, 708, 758, 808, 858, 908, 958, 1000]" 1000 0] srt
  have "grants_in_window (attempts (replicate 20 0 @ [8, 58, 108, 158, 208, 258, 308, 358, 408, 458, 508, 558, 608, 658, 708, 758, 808, 858, 908, 958, 1000]) (newRateLimiter 20 1 0)) 0 1000 \<le> 2 * 20 + 1"
    by simp
  with srt count show ?thesis by simp
qed

section \<open>Properties of target resolution\<close>

lemma slice_to_subset: "set (slice_to xs e) \<subseteq> set xs"
  by (auto simp: slice_to_def dest: in_set_takeD)

lemma slice_to_length: "0 \<le> e \<Longrightarrow> int (length (slice_to xs e)) \<le> e"
  by (simp add: slice_to_def)

lemma scan_accountKeys_admissible:
  "scan_accountKeys L A ks acc = Inr acc' \<Longrightarrow> \<forall>k \<in> set acc. admissible A k \<Longrightarrow>
   \<forall>k \<in> set acc'. admissible A k"
proof (induction ks arbitrary: acc)
  case Nil
  then show ?case by simp
next
  case (Cons k ks)
  from Cons.prems(1) obtain info where info: "getAccountInfo L k = Inr info"
    by (auto split: sum.splits)
  show ?case
  proof (cases "info = Some True \<or> info = None \<or> k \<in> set EXCLUDED_ADDRESSES")
    case True
    with Cons.prems(1) info have "scan_accountKeys L A ks acc = Inr acc'"
      by auto
    from Cons.IH [OF this Cons.prems(2)] show ?thesis .
  next
    case skip: False
    show ?thesis
    proof (cases "k \<noteq> PublicKey_default \<and> k \<noteq> A")
      case True
      with skip Cons.prems(1) info have run: "scan_accountKeys L A ks (set_add k acc) = Inr acc'"
        by auto
      have "\<forall>x \<in> set (set_add k acc). admissible A x"
        using Cons.prems(2) skip True by (auto simp: set_add_def admissible_def)
      from Cons.IH [OF run this] show ?thesis .
    next
      case False
      with skip Cons.prems(1) info have "scan_accountKeys L A ks acc = Inr acc'"
        by auto
      from Cons.IH [OF this Cons.prems(2)] show ?thesis .
    qed
  qed
qed

lemma scan_transactions_admissible:
  "scan_transactions L A sigs acc = Inr acc' \<Longrightarrow> \<forall>k \<in> set acc. admissible A k \<Longrightarrow>
   \<forall>k \<in> set acc'. admissible A k"
proof (induction sigs arbitrary: acc)
  case Nil
  then show ?case by simp
next
  case (Cons sg sigs)
  from Cons.prems(1) obtain tx where tx: "getTransaction L sg = Inr tx"
    by (auto split: sum.splits)
  show ?case
  proof (cases tx)
    case None
    with Cons.prems(1) tx have "scan_transactions L A sigs acc = Inr acc'"
      by simp
    from Cons.IH [OF this Cons.prems(2)] show ?thesis .
  next
    case (Some ks)
    with Cons.prems(1) tx obtain mid where mid: "scan_accountKeys L A ks acc = Inr mid"
      and run: "scan_transactions L A sigs mid = Inr acc'"
      by (auto split: sum.splits)
    have "\<forall>k \<in> set mid. admissible A k"
      using mid Cons.prems(2) by (rule scan_accountKeys_admissible)
    from Cons.IH [OF run this] show ?thesis .
  qed
qed

lemma batchGetBalances_keys: "batchGetBalances L as = Inr rs \<Longrightarrow> map fst rs = as"
  by (induction as arbitrary: rs) (auto split: sum.splits)

lemma qualifying_keys: "publicKey ` set (qualifying m rs) \<subseteq> fst ` set rs"
  by (force simp: qualifying_def)

lemma historyTargets_admissible:
  assumes "historyTargets L A m = Inr found"
  shows "\<forall>t \<in> set found. admissible A (publicKey t)"
proof -
  from assms obtain sigs addrs rs where
    scan: "scan_transactions L A sigs [] = Inr addrs"
    and bal: "batchGetBalances L addrs = Inr rs"
    and found: "found = qualifying m rs"
    by (auto simp: historyTargets_def split: sum.splits)
  have "\<forall>k \<in> set addrs. admissible A k"
    using scan by (rule scan_transactions_admissible) simp
  moreover have "fst ` set rs = set addrs"
    using batchGetBalances_keys [OF bal] by (metis list.set_map)
  ultimately show ?thesis
    using qualifying_keys [of m rs] found by auto
qed

lemma getTargets_shape:
  assumes "getTargets L st A m = Inr ts"
  shows "\<exists>found lamports. historyTargets L A m = Inr found \<and> getBalance L A = Inr lamports
      \<and> ts = slice_to (found @ (if m \<le> of_nat lamports / LAMPORTS_PER_SOL
                 then [\<lparr> publicKey = A, balance = of_nat lamports / LAMPORTS_PER_SOL \<rparr>] else []))
               (maxTargets st)"
  using assms by (auto simp: getTargets_def Let_def split: sum.splits)

lemma getTargets_ok:
  assumes "getTargets L st A m = Inr ts"
  shows "\<forall>t \<in> set ts. publicKey t = A
           \<or> (publicKey t \<notin> set EXCLUDED_ADDRESSES \<and> publicKey t \<noteq> PublicKey_default)"
    and "0 \<le> maxTargets st \<Longrightarrow> int (length ts) \<le> maxTargets st"
proof -
  from getTargets_shape [OF assms] obtain found lamports where
    hist: "historyTargets L A m = Inr found"
    and ts: "ts = slice_to (found @ (if m \<le> of_nat lamports / LAMPORTS_PER_SOL
                 then [\<lparr> publicKey = A, balance = of_nat lamports / LAMPORTS_PER_SOL \<rparr>] else []))
               (maxTargets st)"
    by blast
  define extra where "extra = (if m \<le> of_nat lamports / LAMPORTS_PER_SOL
                 then [\<lparr> publicKey = A, balance = of_nat lamports / LAMPORTS_PER_SOL \<rparr>] else [])"
  have ts': "ts = slice_to (found @ extra) (maxTargets st)"
    using ts by (simp only: extra_def)
  have adm: "\<forall>t \<in> set found. admissible A (publicKey t)"
    using hist by (rule historyTargets_admissible)
  have extra: "\<forall>t \<in> set extra. publicKey t = A"
    by (simp add: extra_def)
  show "\<forall>t \<in> set ts. publicKey t = A
           \<or> (publicKey t \<notin> set EXCLUDED_ADDRESSES \<and> publicKey t \<noteq> PublicKey_default)"
  proof
    fix t assume "t \<in> set ts"
    then have "t \<in> set (found @ extra)"
      using slice_to_subset [of "found @ extra" "maxTargets st"] by (auto simp only: ts')
    then consider "t \<in> set found" | "t \<in> set extra"
      by auto
    then show "publicKey t = A
           \<or> (publicKey t \<notin> set EXCLUDED_ADDRESSES \<and> publicKey t \<noteq> PublicKey_default)"
    proof cases
      case 1
      with adm have "admissible A (publicKey t)" by blast
      then show ?thesis by (simp add: admissible_def)
    next
      case 2
      with extra show ?thesis by blast
    qed
  qed
  show "0 \<le> maxTargets st \<Longrightarrow> int (length ts) \<le> maxTargets st"
    unfolding ts' by (rule slice_to_length)
qed

lemma search_loop_result:
  assumes "search_loop st A m start passes found = Some (Inr ts)"
  shows "ts = found \<or> (\<exists>L. getTargets L st A m = Inr ts)"
  using assms
proof (induction passes arbitrary: found)
  case Nil
  then show ?case by (simp split: if_splits)
next
  case (Cons p passes)
  obtain now L where p: "p = (now, L)" by (cases p)
  show ?case
  proof (cases "\<not> int (length found) < maxTargets st \<or> \<not> now - start < 10000")
    case True
    with Cons.prems p have "ts = found" by (auto split: if_splits)
    then show ?thesis by simp
  next
    case False
    with Cons.prems p obtain found' where g: "getTargets L st A m = Inr found'"
      and run: "search_loop st A m start passes found' = Some (Inr ts)"
      by (auto split: sum.splits)
    from Cons.IH [OF run] g show ?thesis by auto
  qed
qed

lemma getTargetsWithTimeout_result:
  assumes "getTargetsWithTimeout st start L0 passes lowerMinSol Lrelaxed A m = Some (Inr ts)"
  shows "\<exists>L m'. getTargets L st A m' = Inr ts"
proof -
  from assms obtain first where first: "getTargets L0 st A m = Inr first"
    by (auto simp: getTargetsWithTimeout_def split: sum.splits)
  from assms first obtain found where
    loop: "search_loop st A m start passes first = Some (Inr found)"
    and fin: "ts = found \<or> getTargets Lrelaxed st A 0 = Inr ts"
    by (auto simp: getTargetsWithTimeout_def split: sum.splits option.splits if_splits)
  from search_loop_result [OF loop] first
  have "\<exists>L. getTargets L st A m = Inr found" by auto
  with fin show ?thesis by auto
qed

lemma search_loop_returns:
  assumes "\<exists>(now, L) \<in> set passes. 10000 \<le> now - start"
  shows "search_loop st A m start passes found \<noteq> None"
  using assms
proof (induction passes arbitrary: found)
  case Nil
  then show ?case by simp
next
  case (Cons p passes)
  obtain now L where p: "p = (now, L)" by (cases p)
  show ?case
  proof (cases "10000 \<le> now - start")
    case True
    then show ?thesis by (simp add: p)
  next
    case False
    with Cons.prems p have "\<exists>(now, L) \<in> set passes. 10000 \<le> now - start" by auto
    from Cons.IH [OF this] show ?thesis
      by (simp add: p split: sum.splits)
  qed
qed

text \<open>
  Claim C5, as stated, fails. Resolving for the active wallet \<open>Stake111...\<close>, which is on
  the exclusion list, returns that very address as the last target: the active wallet is
  appended without being looked up in the list. And with \<open>maxTargets = -1\<close> the slice
  drops one entry from the end, so two entries come back, more than \<open>maxTargets\<close>.
\<close>

theorem active_wallet_escapes_screen_counterexample:
  "getTargets example_ledger example_settings ''Stake11111111111111111111111111111111111111'' (1 / 100)
     = Inr [\<lparr> publicKey = ''walletA'', balance = 2 \<rparr>, \<lparr> publicKey = ''walletB'', balance = 2 \<rparr>,
            \<lparr> publicKey = ''walletC'', balance = 2 \<rparr>,
            \<lparr> publicKey = ''Stake11111111111111111111111111111111111111'', balance = 2 \<rparr>]
   \<and> ''Stake11111111111111111111111111111111111111'' \<in> set EXCLUDED_ADDRESSES
   \<and> getTargets example_ledger (example_settings \<lparr> maxTargets := - 1 \<rparr>) ''walletC'' (1 / 100)
     = Inr [\<lparr> publicKey = ''walletA'', balance = 2 \<rparr>, \<lparr> publicKey = ''walletB'', balance = 2 \<rparr>]
   \<and> \<not> int (length [\<lparr> publicKey = ''walletA'', balance = 2 \<rparr>,
                        \<lparr> publicKey = ''walletB'', balance = (2::rat) \<rparr>])
         \<le> maxTargets (example_settings \<lparr> maxTargets := - 1 \<rparr>)"
  by (simp add: example_ledger_defs resolver_defs)

text \<open>
  Claim C5, amended. For a non-negative \<open>maxTargets\<close>, every list returned by \<open>getTargets\<close>,
  and every list returned by \<open>getTargetsWithTimeout\<close> (the relaxed pass included), has at
  most \<open>maxTargets\<close> entries, and each entry other than the active address itself is
  neither on the exclusion list nor the default address.
\<close>

theorem resolved_targets_bounded_and_screened:
  assumes "0 \<le> maxTargets st"
  shows "(getTargets L st A m = Inr ts \<longrightarrow>
            int (length ts) \<le> maxTargets st
            \<and> (\<forall>t \<in> set ts. publicKey t = A
                  \<or> (publicKey t \<notin> set EXCLUDED_ADDRESSES \<and> publicKey t \<noteq> PublicKey_default)))
       \<and> (getTargetsWithTimeout st start L0 passes lowerMinSol Lrelaxed A m = Some (Inr ts) \<longrightarrow>
            int (length ts) \<le> maxTargets st
            \<and> (\<forall>t \<in> set ts. publicKey t = A
                  \<or> (publicKey t \<notin> set EXCLUDED_ADDRESSES \<and> publicKey t \<noteq> PublicKey_default)))"
proof (intro conjI impI)
  assume g: "getTargets L st A m = Inr ts"
  show "int (length ts) \<le> maxTargets st"
    using getTargets_ok(2) [OF g assms] .
  show "\<forall>t \<in> set ts. publicKey t = A
          \<or> (publicKey t \<notin> set EXCLUDED_ADDRESSES \<and> publicKey t \<noteq> PublicKey_default)"
    using getTargets_ok(1) [OF g] .
next
  assume "getTargetsWithTimeout st start L0 passes lowerMinSol Lrelaxed A m = Some (Inr ts)"
  then obtain L' m' where g: "getTargets L' st A m' = Inr ts"
    using getTargetsWithTimeout_result by blast
  show "int (length ts) \<le> maxTargets st"
    using getTargets_ok(2) [OF g assms] .
  show "\<forall>t \<in> set ts. publicKey t = A
          \<or> (publicKey t \<notin> set EXCLUDED_ADDRESSES \<and> publicKey t \<noteq> PublicKey_default)"
    using getTargets_ok(1) [OF g] .
qed

theorem resolved_targets_bounded_and_screened_witness:
  "0 \<le> maxTargets example_settings
   \<and> getTargets example_ledger example_settings ''walletC'' (1 / 100)
       = Inr [\<lparr> publicKey = ''walletA'', balance = 2 \<rparr>, \<lparr> publicKey = ''walletB'', balance = 2 \<rparr>,
              \<lparr> publicKey = ''walletC'', balance = 2 \<rparr>]
   \<and> getTargetsWithTimeout example_settings 0 example_ledger
         [(5000, example_ledger), (10000, example_ledger)] True example_ledger ''walletC'' (1 / 100)
       = Some (Inr [\<lparr> publicKey = ''walletA'', balance = 2 \<rparr>, \<lparr> publicKey = ''walletB'', balance = 2 \<rparr>,
              \<lparr> publicKey = ''walletC'', balance = 2 \<rparr>])
   \<and> int (length [\<lparr> publicKey = ''walletA'', balance = 2 \<rparr>, \<lparr> publicKey = ''walletB'', balance = 2 \<rparr>,
              \<lparr> publicKey = ''walletC'', balance = (2::rat) \<rparr>]) \<le> maxTargets example_settings
   \<and> ''walletA'' \<notin> set EXCLUDED_ADDRESSES \<and> ''walletA'' \<noteq> PublicKey_default"
proof -
  have h: "0 \<le> maxTargets example_settings"
    by (simp add: example_settings_def)
  show ?thesis
    using h resolved_targets_bounded_and_screened [OF h,
        where L = example_ledger and A = "''walletC''" and m = "1 / 100" and start = 0
          and ?L0.0 = example_ledger and passes = "[(5000, example_ledger), (10000, example_ledger)]"
          and lowerMinSol = True and Lrelaxed = example_ledger
          and ts = "[\<lparr> publicKey = ''walletA'', balance = 2 \<rparr>, \<lparr> publicKey = ''walletB'', balance = 2 \<rparr>,
              \<lparr> publicKey = ''walletC'', balance = 2 \<rparr>]"]
    by (simp add: example_ledger_defs resolver_defs getTargetsWithTimeout_def)
qed




section \<open>Properties of the dispatcher\<close>

lemma refused_run:
  assumes "getBalance L g = Inr lamports" "of_nat lamports / LAMPORTS_PER_SOL < minBalanceForRent"
  shows "sendTransactionsInParallel L st g targetList =
     \<lparr> outcomes = Inr [], submitted = [],
       logged = [(CRITICAL, NotEnoughForRent (Some (of_nat lamports / LAMPORTS_PER_SOL)))] \<rparr>"
  using assms by (simp add: sendTransactionsInParallel_def fetchWalletBalance_def to_number_def)

lemma start_transfers_all_built:
  assumes "\<forall>t \<in> set ts. buildTransfer L (publicKey t) amt = None"
  shows "start_transfers L amt i ts =
           (map (\<lambda>(j, t). (publicKey t, sendAndConfirmTransaction L j (publicKey t) amt))
              (enumerate i ts), None)"
  using assms by (induction ts arbitrary: i) simp_all

lemma start_transfers_prefix:
  "\<exists>n \<le> length ts. fst (start_transfers L amt i ts) =
      map (\<lambda>(j, t). (publicKey t, sendAndConfirmTransaction L j (publicKey t) amt))
        (enumerate i (take n ts))"
proof (induction ts arbitrary: i)
  case Nil
  then show ?case by simp
next
  case (Cons t ts)
  show ?case
  proof (cases "buildTransfer L (publicKey t) amt")
    case (Some e)
    then have "fst (start_transfers L amt i (t # ts)) = []" by simp
    then show ?thesis by (intro exI [of _ 0]) simp
  next
    case None
    from Cons.IH [of "Suc i"] obtain n where n: "n \<le> length ts"
      "fst (start_transfers L amt (Suc i) ts) =
        map (\<lambda>(j, t). (publicKey t, sendAndConfirmTransaction L j (publicKey t) amt))
          (enumerate (Suc i) (take n ts))"
      by blast
    show ?thesis
      using None n by (intro exI [of _ "Suc n"]) (simp add: split_def)
  qed
qed

lemma promise_all_resolved: "promise_all ps = Inr xs \<Longrightarrow> ps = map Inr xs"
proof (induction ps arbitrary: xs)
  case Nil
  then show ?case by simp
next
  case (Cons p ps)
  show ?case
  proof (cases p)
    case (Inl e)
    with Cons.prems show ?thesis by simp
  next
    case (Inr x)
    with Cons.prems obtain ys where "promise_all ps = Inr ys" "xs = x # ys"
      by (auto split: sum.splits)
    with Cons.IH Inr show ?thesis by simp
  qed
qed

lemma promise_all_map_Inr: "promise_all (map Inr xs) = Inr xs"
  by (induction xs) simp_all


lemma transfer_outcome_resolved:
  assumes "transfer_outcome pk res = Inr out"
  shows "target out = pk"
    and "success out \<longleftrightarrow> res = Confirmed"
    and "\<not> success out \<Longrightarrow>
         \<exists>msg. error out = Some msg
           \<and> (res = OtherError msg \<or> (\<exists>ls. res = SendTransactionError msg (Inr ls)))"
  using assms by (auto simp: transfer_outcome_def split: send_result.splits sum.splits)


lemma start_transfers_thrown:
  "snd (start_transfers L amt i ts) = None
     \<longleftrightarrow> (\<forall>t \<in> set ts. buildTransfer L (publicKey t) amt = None)"
  by (induction ts arbitrary: i) (auto simp: split_def Let_def split: option.splits)


lemma served_run_eq:
  assumes "getBalance L g = Inr lamports" "\<not> of_nat lamports / LAMPORTS_PER_SOL < minBalanceForRent"
    and "start_transfers L (js_mul (amountToSend st) LAMPORTS_PER_SOL) 0 targetList = (started, thrown)"
  shows "outcomes (sendTransactionsInParallel L st g targetList) =
           (case thrown of Some e \<Rightarrow> Inl e
            | None \<Rightarrow> promise_all (map (\<lambda>(pk, res). transfer_outcome pk res) started))"
    and "submitted (sendTransactionsInParallel L st g targetList) = map fst started"
  using assms
  by (simp_all add: sendTransactionsInParallel_def fetchWalletBalance_def to_number_def Let_def)


lemma map_fst_started:
  "map fst (map (\<lambda>(j, t). (publicKey t, f j t)) (enumerate n ts)) = map publicKey ts"
  by (induction ts arbitrary: n) simp_all

lemma map_outcome_started:
  "map (\<lambda>(pk, res). transfer_outcome pk res) (map (\<lambda>(j, t). (publicKey t, f j t)) (enumerate n ts))
     = map (\<lambda>(j, t). transfer_outcome (publicKey t) (f j t)) (enumerate n ts)"
  by (induction ts arbitrary: n) simp_all

lemma served_run:
  assumes "getBalance L g = Inr lamports" "\<not> of_nat lamports / LAMPORTS_PER_SOL < minBalanceForRent"
    and "\<forall>t \<in> set targetList.
           buildTransfer L (publicKey t) (js_mul (amountToSend st) LAMPORTS_PER_SOL) = None"
  shows "outcomes (sendTransactionsInParallel L st g targetList) =
           promise_all
             (map (\<lambda>(i, t). transfer_outcome (publicKey t)
                    (sendAndConfirmTransaction L i (publicKey t)
                       (js_mul (amountToSend st) LAMPORTS_PER_SOL)))
                (enumerate 0 targetList))"
    and "submitted (sendTransactionsInParallel L st g targetList) = map publicKey targetList"
proof -
  note started = start_transfers_all_built [OF assms(3), of 0]
  note run = served_run_eq [OF assms(1,2) started]
  show "outcomes (sendTransactionsInParallel L st g targetList) =
           promise_all
             (map (\<lambda>(i, t). transfer_outcome (publicKey t)
                    (sendAndConfirmTransaction L i (publicKey t)
                       (js_mul (amountToSend st) LAMPORTS_PER_SOL)))
                (enumerate 0 targetList))"
    unfolding run(1) option.case map_outcome_started ..
  show "submitted (sendTransactionsInParallel L st g targetList) = map publicKey targetList"
    unfolding run(2) map_fst_started ..
qed


lemma served_dispatch_outcomes:
  assumes "getBalance L g = Inr lamports" "\<not> of_nat lamports / LAMPORTS_PER_SOL < minBalanceForRent"
    and "\<forall>t \<in> set targetList.
           buildTransfer L (publicKey t) (js_mul (amountToSend st) LAMPORTS_PER_SOL) = None"
    and "outcomes (sendTransactionsInParallel L st g targetList) = Inr outs"
  shows "length outs = length targetList"
    and "i < length targetList \<Longrightarrow>
         transfer_outcome (publicKey (targetList ! i))
           (sendAndConfirmTransaction L i (publicKey (targetList ! i))
              (js_mul (amountToSend st) LAMPORTS_PER_SOL)) = Inr (outs ! i)"
proof -
  let ?amt = "js_mul (amountToSend st) LAMPORTS_PER_SOL"
  let ?settled = "map (\<lambda>(i, t). transfer_outcome (publicKey t)
                    (sendAndConfirmTransaction L i (publicKey t) ?amt)) (enumerate 0 targetList)"
  have "promise_all ?settled = Inr outs"
    using assms(4) by (simp only: served_run(1) [OF assms(1-3)])
  then have settled: "?settled = map Inr outs" by (rule promise_all_resolved)
  show len: "length outs = length targetList"
    using arg_cong [where f = length, OF settled] by simp
  assume i: "i < length targetList"
  then have "?settled ! i = transfer_outcome (publicKey (targetList ! i))
                 (sendAndConfirmTransaction L i (publicKey (targetList ! i)) ?amt)"
    by (simp add: nth_enumerate_eq)
  with arg_cong [where f = "\<lambda>xs. xs ! i", OF settled]
  show "transfer_outcome (publicKey (targetList ! i))
           (sendAndConfirmTransaction L i (publicKey (targetList ! i)) ?amt) = Inr (outs ! i)"
    using i len by simp
qed


lemma sent_ok_Nil: "sent_ok [] pk = False"
  by (simp add: sent_ok_def)

lemma status_of_served_dispatch:
  assumes "getBalance Lsend (kd_publicKey kp) = Inr lamports"
    and "\<not> of_nat lamports / LAMPORTS_PER_SOL < minBalanceForRent"
    and "dispatch_and_log Lsend L st mainKey now kp activeKey targetList = Inr entry"
  shows "transactionStatus entry = ''Success''
     \<longleftrightarrow> (\<forall>i < length targetList.
            sendAndConfirmTransaction Lsend i (publicKey (targetList ! i))
              (js_mul (amountToSend st) LAMPORTS_PER_SOL) = Confirmed)"
proof -
  let ?amt = "js_mul (amountToSend st) LAMPORTS_PER_SOL"
  let ?run = "sendTransactionsInParallel Lsend st (kd_publicKey kp) targetList"
  from assms(3) obtain outs where outs: "outcomes ?run = Inr outs"
    and entry: "entry = logTransactionDetails L mainKey now kp activeKey targetList outs"
    by (auto simp: dispatch_and_log_def split: sum.splits)
  obtain started thrown where started: "start_transfers Lsend ?amt 0 targetList = (started, thrown)"
    by (cases "start_transfers Lsend ?amt 0 targetList")
  from outs have "thrown = None"
    by (simp only: served_run_eq(1) [OF assms(1,2) started] split: option.splits) simp
  with started have "snd (start_transfers Lsend ?amt 0 targetList) = None" by simp
  then have built: "\<forall>t \<in> set targetList. buildTransfer Lsend (publicKey t) ?amt = None"
    by (simp only: start_transfers_thrown)
  note len = served_dispatch_outcomes(1) [OF assms(1,2) built outs]
  have nth: "success (outs ! i) \<longleftrightarrow>
       sendAndConfirmTransaction Lsend i (publicKey (targetList ! i)) ?amt = Confirmed"
    if "i < length targetList" for i
    using served_dispatch_outcomes(2) [OF assms(1,2) built outs that]
    by (rule transfer_outcome_resolved(2))
  have "transactionStatus entry = ''Success'' \<longleftrightarrow> list_all success outs"
    by (simp add: entry logTransactionDetails_def)
  also have "\<dots> \<longleftrightarrow> (\<forall>i < length outs. success (outs ! i))"
    by (simp add: list_all_length)
  also have "\<dots> \<longleftrightarrow> (\<forall>i < length targetList.
            sendAndConfirmTransaction Lsend i (publicKey (targetList ! i)) ?amt = Confirmed)"
    using nth by (simp add: len)
  finally show ?thesis .
qed



text \<open>
  Claim C3. For a non-empty target list, when the dispatch wallet's balance is below the
  rent floor of 0.00203928 SOL, \<open>sendTransactionsInParallel\<close> hands no transfer to the
  ledger, resolves to the empty list of outcomes, and writes one log line, of level
  \<open>CRITICAL\<close>, reporting the shortfall.
\<close>

theorem refused_below_rent_floor:
  assumes "targetList \<noteq> []"
    and "getBalance L g = Inr lamports"
    and "of_nat lamports / LAMPORTS_PER_SOL < minBalanceForRent"
  shows "outcomes (sendTransactionsInParallel L st g targetList) = Inr []
       \<and> submitted (sendTransactionsInParallel L st g targetList) = []
       \<and> logged (sendTransactionsInParallel L st g targetList)
           = [(CRITICAL, NotEnoughForRent (Some (of_nat lamports / LAMPORTS_PER_SOL)))]"
  by (simp add: refused_run [OF assms(2,3)])

theorem refused_below_rent_floor_witness:
  "example_targets \<noteq> [] \<and> getBalance poor_ledger ''ABCDXY'' = Inr 1000000
   \<and> of_nat 1000000 / LAMPORTS_PER_SOL < minBalanceForRent
   \<and> outcomes (sendTransactionsInParallel poor_ledger example_settings ''ABCDXY'' example_targets) = Inr []
   \<and> submitted (sendTransactionsInParallel poor_ledger example_settings ''ABCDXY'' example_targets) = []
   \<and> logged (sendTransactionsInParallel poor_ledger example_settings ''ABCDXY'' example_targets)
       = [(CRITICAL, NotEnoughForRent (Some (1 / 1000)))]"
proof -
  have h1: "example_targets \<noteq> []" by (simp add: example_targets_def)
  have h2: "getBalance poor_ledger ''ABCDXY'' = Inr 1000000"
    by (simp add: poor_ledger_def)
  have h3: "of_nat 1000000 / LAMPORTS_PER_SOL < minBalanceForRent"
    by (simp add: LAMPORTS_PER_SOL_def minBalanceForRent_def)
  show ?thesis
    using h1 h2 h3 refused_below_rent_floor [OF h1 h2 h3, of example_settings]
    by (simp add: LAMPORTS_PER_SOL_def)
qed




text \<open>
  Claim C10. For a non-empty target list and an empty list of results, the log entry has
  status \<open>Success\<close> while every target in it is marked \<open>sentSuccessful = false\<close>; and a
  dispatch refused at the rent floor is logged from exactly such an empty list.
\<close>

theorem empty_results_logged_as_success:
  assumes "targetList \<noteq> []"
  shows "transactionStatus (logTransactionDetails L mainKey now kp activeKey targetList []) = ''Success''
       \<and> targets (logTransactionDetails L mainKey now kp activeKey targetList []) \<noteq> []
       \<and> (\<forall>t \<in> set (targets (logTransactionDetails L mainKey now kp activeKey targetList [])).
             \<not> sentSuccessful t)
       \<and> (\<forall>lamports. getBalance Lsend (kd_publicKey kp) = Inr lamports
             \<and> of_nat lamports / LAMPORTS_PER_SOL < minBalanceForRent \<longrightarrow>
             dispatch_and_log Lsend L st mainKey now kp activeKey targetList
               = Inr (logTransactionDetails L mainKey now kp activeKey targetList []))"
proof (intro conjI allI impI ballI)
  show "transactionStatus (logTransactionDetails L mainKey now kp activeKey targetList []) = ''Success''"
    by (simp add: logTransactionDetails_def)
  show "targets (logTransactionDetails L mainKey now kp activeKey targetList []) \<noteq> []"
    using assms by (simp add: logTransactionDetails_def)
next
  fix t assume "t \<in> set (targets (logTransactionDetails L mainKey now kp activeKey targetList []))"
  then show "\<not> sentSuccessful t"
    by (auto simp: logTransactionDetails_def sent_ok_Nil)
next
  fix lamports
  assume "getBalance Lsend (kd_publicKey kp) = Inr lamports
             \<and> of_nat lamports / LAMPORTS_PER_SOL < minBalanceForRent"
  then have "outcomes (sendTransactionsInParallel Lsend st (kd_publicKey kp) targetList) = Inr []"
    by (simp add: refused_run)
  then show "dispatch_and_log Lsend L st mainKey now kp activeKey targetList
               = Inr (logTransactionDetails L mainKey now kp activeKey targetList [])"
    by (simp add: dispatch_and_log_def)
qed

theorem empty_results_logged_as_success_witness:
  "example_targets \<noteq> []
   \<and> transactionStatus (logTransactionDetails example_ledger ''main'' ''now'' example_keypair
        ''walletC'' example_targets []) = ''Success''
   \<and> map sentSuccessful (targets (logTransactionDetails example_ledger ''main'' ''now'' example_keypair
        ''walletC'' example_targets [])) = [False, False]
   \<and> getBalance poor_ledger (kd_publicKey example_keypair) = Inr 1000000
   \<and> of_nat 1000000 / LAMPORTS_PER_SOL < minBalanceForRent
   \<and> dispatch_and_log poor_ledger example_ledger example_settings ''main'' ''now'' example_keypair
        ''walletC'' example_targets
       = Inr (logTransactionDetails example_ledger ''main'' ''now'' example_keypair ''walletC''
                example_targets [])"
proof -
  have h: "example_targets \<noteq> []"
    by (simp add: example_targets_def)
  have b: "getBalance poor_ledger (kd_publicKey example_keypair) = Inr 1000000"
    by (simp add: example_ledger_defs)
  have f: "of_nat 1000000 / LAMPORTS_PER_SOL < minBalanceForRent"
    by (simp add: LAMPORTS_PER_SOL_def minBalanceForRent_def)
  from empty_results_logged_as_success [OF h, of example_ledger "''main''" "''now''" example_keypair
      "''walletC''" poor_ledger example_settings]
  have status: "transactionStatus (logTransactionDetails example_ledger ''main'' ''now'' example_keypair
        ''walletC'' example_targets []) = ''Success''"
    and unsent: "\<forall>t \<in> set (targets (logTransactionDetails example_ledger ''main'' ''now''
        example_keypair ''walletC'' example_targets [])). \<not> sentSuccessful t"
    and refused: "\<forall>lamports. getBalance poor_ledger (kd_publicKey example_keypair) = Inr lamports
             \<and> of_nat lamports / LAMPORTS_PER_SOL < minBalanceForRent \<longrightarrow>
             dispatch_and_log poor_ledger example_ledger example_settings ''main'' ''now''
               example_keypair ''walletC'' example_targets
               = Inr (logTransactionDetails example_ledger ''main'' ''now'' example_keypair ''walletC''
                   example_targets [])"
    by blast+
  have flags: "map sentSuccessful (targets (logTransactionDetails example_ledger ''main'' ''now''
        example_keypair ''walletC'' example_targets [])) = [False, False]"
    using unsent by (simp add: logTransactionDetails_def example_targets_def)
  from refused b f have "dispatch_and_log poor_ledger example_ledger example_settings ''main'' ''now''
        example_keypair ''walletC'' example_targets
       = Inr (logTransactionDetails example_ledger ''main'' ''now'' example_keypair ''walletC''
                example_targets [])"
    by blast
  with h status flags b f show ?thesis
    by (intro conjI)
qed

text \<open>
  Claim C2 says that the logged status is \<open>Success\<close> exactly when every target of the
  dispatch has a successful transfer outcome, and \<open>Partial Failure\<close> otherwise. The code
  departs from it on a refused dispatch. The dispatch wallet holds 0.001 SOL, below the rent
  floor, and there are two targets: the dispatch is refused, no transfer succeeds, both
  targets are logged with \<open>sentSuccessful = false\<close>, and the status written is
  \<open>Success\<close>. On a dispatch that is served and logged the status is as the claim says
  (\<open>status_of_served_dispatch\<close>).
\<close>

theorem refused_dispatch_recorded_success:
  "getBalance poor_ledger (kd_publicKey example_keypair) = Inr 1000000
   \<and> outcomes (sendTransactionsInParallel poor_ledger example_settings (kd_publicKey example_keypair)
        example_targets) = Inr []
   \<and> submitted (sendTransactionsInParallel poor_ledger example_settings (kd_publicKey example_keypair)
        example_targets) = []
   \<and> dispatch_and_log poor_ledger poor_ledger example_settings ''main'' ''now''
        example_keypair ''walletC'' example_targets
       = Inr (logTransactionDetails poor_ledger ''main'' ''now'' example_keypair ''walletC''
                example_targets [])
   \<and> transactionStatus (logTransactionDetails poor_ledger ''main'' ''now'' example_keypair ''walletC''
        example_targets []) = ''Success''
   \<and> map sentSuccessful (targets (logTransactionDetails poor_ledger ''main'' ''now'' example_keypair
        ''walletC'' example_targets [])) = [False, False]"
proof -
  have bal: "getBalance poor_ledger (kd_publicKey example_keypair) = Inr 1000000"
    by (simp add: example_ledger_defs)
  have low: "of_nat 1000000 / LAMPORTS_PER_SOL < minBalanceForRent"
    by (simp add: LAMPORTS_PER_SOL_def minBalanceForRent_def)
  note run = refused_run [OF bal low, of example_settings example_targets]
  have out: "outcomes (sendTransactionsInParallel poor_ledger example_settings
        (kd_publicKey example_keypair) example_targets) = Inr []"
    and sub: "submitted (sendTransactionsInParallel poor_ledger example_settings
        (kd_publicKey example_keypair) example_targets) = []"
    by (simp_all add: run)
  have entry: "dispatch_and_log poor_ledger poor_ledger example_settings ''main'' ''now''
        example_keypair ''walletC'' example_targets
       = Inr (logTransactionDetails poor_ledger ''main'' ''now'' example_keypair ''walletC''
                example_targets [])"
    by (simp add: dispatch_and_log_def out)
  have status: "transactionStatus (logTransactionDetails poor_ledger ''main'' ''now'' example_keypair
        ''walletC'' example_targets []) = ''Success''"
    by (simp add: logTransactionDetails_def)
  have flags: "map sentSuccessful (targets (logTransactionDetails poor_ledger ''main'' ''now''
        example_keypair ''walletC'' example_targets [])) = [False, False]"
    by (simp add: logTransactionDetails_def example_targets_def sent_ok_Nil)
  from bal out sub entry status flags show ?thesis
    by (intro conjI)
qed

end
